theory Spec2Isabelle
  imports Main "HOL-Library.Char_ord"
begin

section \<open>Package token\<close>

text \<open>
  \<open>token.Type\<close> is a Go string type with a fixed set of constants. It is modelled as a
  datatype with one constructor per constant; \<open>Type_text\<close> gives the string each constant
  holds (what \<open>%v\<close> prints). \<open>NOTYPE\<close> is the empty string, the \<open>Type\<close> of the zero
  \<open>Token{}\<close> (the parser's fields before \<open>New\<close> has read two tokens).
\<close>

datatype Type =
    NOTYPE
  | ILLEGAL | EOF | IDENT | INT'
  | ASSIGN | PLUS | MINUS | SLASH | ASTERISK | BANG | LT | GT | EQ | NOTEQ
  | COMMA | SEMICOLON | LPAREN | RPAREN | LBRACE | RBRACE
  | TRUE | FALSE | FUNCTION | LET | IF | ELSE | RETURN

fun Type_text :: "Type \<Rightarrow> string" where
  "Type_text NOTYPE = []"
| "Type_text ILLEGAL = ''ILLEGAL''"
| "Type_text EOF = ''EOF''"
| "Type_text IDENT = ''IDENT''"
| "Type_text INT' = ''INT''"
| "Type_text ASSIGN = ''=''"
| "Type_text PLUS = ''+''"
| "Type_text MINUS = ''-''"
| "Type_text SLASH = ''/''"
| "Type_text ASTERISK = ''*''"
| "Type_text BANG = ''!''"
| "Type_text LT = ''<''"
| "Type_text GT = ''>''"
| "Type_text EQ = ''==''"
| "Type_text NOTEQ = ''!=''"
| "Type_text COMMA = '',''"
| "Type_text SEMICOLON = '';''"
| "Type_text LPAREN = ''(''"
| "Type_text RPAREN = '')''"
| "Type_text LBRACE = ''{''"
| "Type_text RBRACE = ''}''"
| "Type_text TRUE = ''TRUE''"
| "Type_text FALSE = ''FALSE''"
| "Type_text FUNCTION = ''FUNCTION''"
| "Type_text LET = ''LET''"
| "Type_text IF = ''IF''"
| "Type_text ELSE = ''ELSE''"
| "Type_text RETURN = ''RETURN''"

record Token =
  Type :: Type
  Literal :: string

definition zeroToken :: Token where
  "zeroToken = \<lparr>Type = NOTYPE, Literal = []\<rparr>"

definition keywordTable :: "string \<rightharpoonup> Type" where
  "keywordTable = map_of
     [(''let'', LET), (''fn'', FUNCTION), (''if'', IF), (''else'', ELSE),
      (''return'', RETURN), (''true'', TRUE), (''false'', FALSE)]"

definition singleCharTokens :: "char \<rightharpoonup> Type" where
  "singleCharTokens = map_of
     [(CHR '','', COMMA), (CHR '';'', SEMICOLON), (CHR ''('', LPAREN), (CHR '')'', RPAREN),
      (CHR ''{'', LBRACE), (CHR ''}'', RBRACE), (CHR ''='', ASSIGN), (CHR ''+'', PLUS),
      (CHR ''-'', MINUS), (CHR ''*'', ASTERISK), (CHR ''/'', SLASH), (CHR ''!'', BANG),
      (CHR ''<'', LT), (CHR ''>'', GT)]"

definition twoCharTokens :: "string \<rightharpoonup> Type" where
  "twoCharTokens = map_of [(''=='', EQ), (''!='', NOTEQ)]"

definition GetTokenType :: "string \<Rightarrow> Type" where
  "GetTokenType identifier = (case keywordTable identifier of None \<Rightarrow> IDENT | Some t \<Rightarrow> t)"

definition GetSingleCharToken :: "char \<Rightarrow> Type" where
  "GetSingleCharToken c = (case singleCharTokens c of None \<Rightarrow> ILLEGAL | Some t \<Rightarrow> t)"

definition GetTwoCharToken :: "string \<Rightarrow> Type" where
  "GetTwoCharToken s = (case twoCharTokens s of None \<Rightarrow> ILLEGAL | Some t \<Rightarrow> t)"

section \<open>Package lexer\<close>

text \<open>
  The input is a Go string, a sequence of bytes: a \<open>string\<close> of 8-bit \<open>char\<close>s. The
  cursor fields are Go \<open>int\<close>s that only ever count up from 0, hence \<open>nat\<close>. The byte 0
  is the lexer's end sentinel.
\<close>

record Lexer =
  input :: string
  position :: nat
  nextPosition :: nat
  ch :: char

definition NUL :: char where
  "NUL = CHR 0x00"

text \<open>
  Go's conversion \<open>string(b)\<close> of a byte \<open>b\<close> yields the UTF-8 encoding of the code point
  \<open>b\<close>: one byte below 128, two bytes from 128 on.
\<close>

definition string_of_byte :: "char \<Rightarrow> string" where
  "string_of_byte c =
     (if (of_char c :: nat) < 128 then [c]
      else [char_of (192 + (of_char c :: nat) div 64), char_of (128 + (of_char c :: nat) mod 64)])"

definition isCharacter :: "char \<Rightarrow> bool" where
  "isCharacter c \<longleftrightarrow> (CHR ''a'' \<le> c \<and> c \<le> CHR ''z'') \<or> (CHR ''A'' \<le> c \<and> c \<le> CHR ''Z'')"

definition isWhitespace :: "char \<Rightarrow> bool" where
  "isWhitespace c \<longleftrightarrow> c = CHR '' '' \<or> c = CHR 0x09 \<or> c = CHR 0x0D \<or> c = CHR 0x0A"

definition isDigit :: "char \<Rightarrow> bool" where
  "isDigit c \<longleftrightarrow> CHR ''0'' \<le> c \<and> c \<le> CHR ''9''"

definition consumeNextChar :: "Lexer \<Rightarrow> Lexer" where
  "consumeNextChar l =
     (let l1 = l\<lparr>position := nextPosition l\<rparr>;
          l2 = (if nextPosition l1 < length (input l1)
                then l1\<lparr>nextPosition := nextPosition l1 + 1\<rparr> else l1)
      in if position l2 < length (input l2)
         then l2\<lparr>ch := input l2 ! position l2\<rparr>
         else l2\<lparr>ch := NUL\<rparr>)"

definition Lexer_New :: "string \<Rightarrow> Lexer" where
  "Lexer_New s = consumeNextChar \<lparr>input = s, position = 0, nextPosition = 0, ch = NUL\<rparr>"

definition peekNextChar :: "Lexer \<Rightarrow> char" where
  "peekNextChar l =
     (if nextPosition l \<ge> length (input l) then NUL else input l ! nextPosition l)"

text \<open>
  The measure of the lexer's three scanning loops: the bytes not yet loaded, plus one
  while the current byte is not the sentinel.
\<close>

definition lexer_rest :: "Lexer \<Rightarrow> nat" where
  "lexer_rest l = (length (input l) - nextPosition l) + (if ch l = NUL then 0 else 1)"

lemma consumeNextChar_rest:
  "ch l \<noteq> NUL \<Longrightarrow> lexer_rest (consumeNextChar l) < lexer_rest l"
  by (auto simp: consumeNextChar_def lexer_rest_def Let_def)

lemma consumeNextChar_rest_le:
  "lexer_rest (consumeNextChar l) \<le> lexer_rest l"
  by (auto simp: consumeNextChar_def lexer_rest_def Let_def)

lemma isDigit_not_NUL: "isDigit c \<Longrightarrow> c \<noteq> NUL"
  by (auto simp: isDigit_def NUL_def less_eq_char_def)

lemma isCharacter_not_NUL: "isCharacter c \<Longrightarrow> c \<noteq> NUL"
  by (auto simp: isCharacter_def NUL_def less_eq_char_def)

function consumeWhitespaces :: "Lexer \<Rightarrow> Lexer" where
  "consumeWhitespaces l =
     (if ch l \<noteq> NUL \<and> isWhitespace (ch l) then consumeWhitespaces (consumeNextChar l) else l)"
  by pat_completeness auto
termination
  by (relation "measure lexer_rest") (auto simp: consumeNextChar_rest)

text \<open>The loop \<open>for isDigit(l.ch) { l.consumeNextChar() }\<close> of \<open>literalsLexlet\<close>.\<close>

function consumeDigits :: "Lexer \<Rightarrow> Lexer" where
  "consumeDigits l = (if isDigit (ch l) then consumeDigits (consumeNextChar l) else l)"
  by pat_completeness auto
termination
  by (relation "measure lexer_rest") (auto simp: consumeNextChar_rest isDigit_not_NUL)

text \<open>The loop \<open>for isCharacter(l.ch) { l.consumeNextChar() }\<close> of
  \<open>identifiersAndKeywordsLexlet\<close>.\<close>

function consumeCharacters :: "Lexer \<Rightarrow> Lexer" where
  "consumeCharacters l = (if isCharacter (ch l) then consumeCharacters (consumeNextChar l) else l)"
  by pat_completeness auto
termination
  by (relation "measure lexer_rest") (auto simp: consumeNextChar_rest isCharacter_not_NUL)

declare consumeWhitespaces.simps [simp del]
declare consumeDigits.simps [simp del]
declare consumeCharacters.simps [simp del]

text \<open>
  The slice \<open>l.input[pos:l.position]\<close>. Go panics when \<open>pos > l.position\<close> or
  \<open>l.position > len(l.input)\<close>; on the states the lexer reaches neither happens
  (lemma \<open>lexer_inv_NextToken\<close> below), so the slice is written with \<open>take\<close> and \<open>drop\<close>.
\<close>

definition slice :: "string \<Rightarrow> nat \<Rightarrow> nat \<Rightarrow> string" where
  "slice s i j = take (j - i) (drop i s)"

text \<open>A lexlet returns a token and whether it matched, and may move the lexer.\<close>

type_synonym lexlet = "Lexer \<Rightarrow> (Token \<times> bool) \<times> Lexer"

definition eofLexlet :: lexlet where
  "eofLexlet l =
     (if ch l \<noteq> NUL then ((zeroToken, False), l)
      else ((\<lparr>Type = EOF, Literal = []\<rparr>, True), l))"

definition twoCharLexlet :: lexlet where
  "twoCharLexlet l =
     (let chars = string_of_byte (ch l) @ string_of_byte (peekNextChar l);
          typ = GetTwoCharToken chars
      in if typ = ILLEGAL then ((zeroToken, False), l)
         else ((\<lparr>Type = typ, Literal = chars\<rparr>, True), consumeNextChar (consumeNextChar l)))"

definition singleCharLexlet :: lexlet where
  "singleCharLexlet l =
     (let typ = GetSingleCharToken (ch l)
      in if typ = ILLEGAL then ((zeroToken, False), l)
         else ((\<lparr>Type = typ, Literal = string_of_byte (ch l)\<rparr>, True), consumeNextChar l))"

definition literalsLexlet :: lexlet where
  "literalsLexlet l =
     (if ch l = NUL \<or> \<not> isDigit (ch l) then ((zeroToken, False), l)
      else let pos = position l;
               l' = consumeDigits l;
               literal = slice (input l') pos (position l')
           in ((\<lparr>Type = INT', Literal = literal\<rparr>, True), l'))"

definition identifiersAndKeywordsLexlet :: lexlet where
  "identifiersAndKeywordsLexlet l =
     (if ch l = NUL \<or> \<not> isCharacter (ch l) then ((zeroToken, False), l)
      else let pos = position l;
               l' = consumeCharacters l;
               ident = slice (input l') pos (position l')
           in ((\<lparr>Type = GetTokenType ident, Literal = ident\<rparr>, True), l'))"

definition lexlets :: "lexlet list" where
  "lexlets = [eofLexlet, twoCharLexlet, singleCharLexlet, literalsLexlet,
              identifiersAndKeywordsLexlet]"

text \<open>
  The body of \<open>NextToken\<close> after the whitespace: the first lexlet that matches gives the
  token; when none does, the current byte becomes an \<open>ILLEGAL\<close> token and is consumed.
\<close>

fun tryLexlets :: "lexlet list \<Rightarrow> Lexer \<Rightarrow> Token \<times> Lexer" where
  "tryLexlets [] l = (\<lparr>Type = ILLEGAL, Literal = string_of_byte (ch l)\<rparr>, consumeNextChar l)"
| "tryLexlets (f # fs) l =
     (case f l of ((tok, ok), l') \<Rightarrow> if ok then (tok, l') else tryLexlets fs l')"

definition NextToken :: "Lexer \<Rightarrow> Token \<times> Lexer" where
  "NextToken l = tryLexlets lexlets (consumeWhitespaces l)"

subsection \<open>The states the lexer reaches\<close>

text \<open>
  On every state the lexer reaches, the cursor is within the input, \<open>nextPosition\<close> is one
  ahead of \<open>position\<close> (or both are at the end), and \<open>ch\<close> is the byte under the cursor,
  the sentinel past the end.
\<close>

definition lexer_inv :: "Lexer \<Rightarrow> bool" where
  "lexer_inv l \<longleftrightarrow>
     position l \<le> length (input l) \<and>
     nextPosition l = min (Suc (position l)) (length (input l)) \<and>
     ch l = (if position l < length (input l) then input l ! position l else NUL)"

inductive lexer_reachable :: "Lexer \<Rightarrow> bool" where
  start: "lexer_reachable (Lexer_New s)"
| step: "lexer_reachable l \<Longrightarrow> NextToken l = (tok, l') \<Longrightarrow> lexer_reachable l'"

subsection \<open>Every token but the end marker moves the cursor\<close>

lemma consumeWhitespaces_rest: "lexer_rest (consumeWhitespaces l) \<le> lexer_rest l"
proof (induction l rule: consumeWhitespaces.induct)
  case (1 l)
  show ?case
  proof (cases "ch l \<noteq> NUL \<and> isWhitespace (ch l)")
    case True
    then have "lexer_rest (consumeWhitespaces (consumeNextChar l)) \<le> lexer_rest (consumeNextChar l)"
      using "1.IH" by simp
    also have "\<dots> \<le> lexer_rest l" by (rule consumeNextChar_rest_le)
    finally show ?thesis using True by (subst consumeWhitespaces.simps) simp
  next
    case False
    then show ?thesis by (subst consumeWhitespaces.simps) auto
  qed
qed

lemma consumeDigits_rest: "lexer_rest (consumeDigits l) \<le> lexer_rest l"
proof (induction l rule: consumeDigits.induct)
  case (1 l)
  show ?case
  proof (cases "isDigit (ch l)")
    case True
    then have "lexer_rest (consumeDigits (consumeNextChar l)) \<le> lexer_rest (consumeNextChar l)"
      using "1.IH" by simp
    also have "\<dots> \<le> lexer_rest l" by (rule consumeNextChar_rest_le)
    finally show ?thesis using True by (subst consumeDigits.simps) simp
  next
    case False
    then show ?thesis by (subst consumeDigits.simps) auto
  qed
qed

lemma consumeDigits_rest_less:
  assumes "isDigit (ch l)"
  shows "lexer_rest (consumeDigits l) < lexer_rest l"
proof -
  have "lexer_rest (consumeDigits (consumeNextChar l)) \<le> lexer_rest (consumeNextChar l)"
    by (rule consumeDigits_rest)
  also have "\<dots> < lexer_rest l"
    using assms by (simp add: consumeNextChar_rest isDigit_not_NUL)
  finally show ?thesis using assms by (subst consumeDigits.simps) simp
qed

lemma consumeCharacters_rest: "lexer_rest (consumeCharacters l) \<le> lexer_rest l"
proof (induction l rule: consumeCharacters.induct)
  case (1 l)
  show ?case
  proof (cases "isCharacter (ch l)")
    case True
    then have "lexer_rest (consumeCharacters (consumeNextChar l)) \<le> lexer_rest (consumeNextChar l)"
      using "1.IH" by simp
    also have "\<dots> \<le> lexer_rest l" by (rule consumeNextChar_rest_le)
    finally show ?thesis using True by (subst consumeCharacters.simps) simp
  next
    case False
    then show ?thesis by (subst consumeCharacters.simps) auto
  qed
qed

lemma consumeCharacters_rest_less:
  assumes "isCharacter (ch l)"
  shows "lexer_rest (consumeCharacters l) < lexer_rest l"
proof -
  have "lexer_rest (consumeCharacters (consumeNextChar l)) \<le> lexer_rest (consumeNextChar l)"
    by (rule consumeCharacters_rest)
  also have "\<dots> < lexer_rest l"
    using assms by (simp add: consumeNextChar_rest isCharacter_not_NUL)
  finally show ?thesis using assms by (subst consumeCharacters.simps) simp
qed

lemma tryLexlets_rest:
  assumes "tryLexlets lexlets l = (tok, l')"
  shows "lexer_rest l' \<le> lexer_rest l \<and> (Type tok \<noteq> EOF \<longrightarrow> lexer_rest l' < lexer_rest l)"
proof (cases "ch l = NUL")
  case True
  then have "tryLexlets lexlets l = (\<lparr>Type = EOF, Literal = []\<rparr>, l)"
    by (simp add: lexlets_def eofLexlet_def)
  with assms show ?thesis by auto
next
  case False
  have two: "lexer_rest (consumeNextChar (consumeNextChar l)) < lexer_rest l"
    using consumeNextChar_rest_le [of "consumeNextChar l"] consumeNextChar_rest [OF False]
    by simp
  have "lexer_rest l' < lexer_rest l"
    using assms False two consumeNextChar_rest [OF False]
      consumeDigits_rest_less [of l] consumeCharacters_rest_less [of l]
    by (auto simp: lexlets_def eofLexlet_def twoCharLexlet_def singleCharLexlet_def
        literalsLexlet_def identifiersAndKeywordsLexlet_def Let_def split: if_splits)
  then show ?thesis by simp
qed

lemma NextToken_rest:
  assumes "NextToken l = (tok, l')"
  shows "lexer_rest l' \<le> lexer_rest l \<and> (Type tok \<noteq> EOF \<longrightarrow> lexer_rest l' < lexer_rest l)"
  using tryLexlets_rest [of "consumeWhitespaces l" tok l'] assms
    consumeWhitespaces_rest [of l]
  by (auto simp: NextToken_def)

section \<open>Package ast\<close>

text \<open>
  An \<open>Expression\<close> or \<open>Statement\<close> field is a Go interface value and may be nil: it is an
  \<open>option\<close>, as is the nil-able \<open>Alternative\<close>. The pointers \<open>Name\<close>, \<open>Parameters[i]\<close>,
  \<open>Consequence\<close> and \<open>Body\<close> are set by the parser from \<open>&ast.Identifier{...}\<close> and from a
  type assertion that panics on nil, so the nodes it returns never hold nil there; they
  are modelled without \<open>option\<close>. \<open>IntegerLiteral.Value\<close> is an \<open>int64\<close> that only ever
  holds what \<open>strconv.ParseInt\<close> accepted; no arithmetic is done on it.
\<close>

datatype Identifier = Identifier Token string

datatype Expression =
    IdentifierExpr Identifier
  | IntegerLiteral Token int
  | Boolean Token bool
  | PrefixExpression Token string "Expression option"
  | InfixExpression Token "Expression option" string "Expression option"
  | IfExpression Token "Expression option" BlockStatement "BlockStatement option"
  | FunctionLiteral Token "Identifier list" BlockStatement
  | CallExpression Token "Expression option" "Expression option list"
and Statement =
    LetStatement Token Identifier "Expression option"
  | ReturnStatement Token "Expression option"
  | ExpressionStatement Token "Expression option"
  | BlockStatementStmt BlockStatement
and BlockStatement =
    BlockStatement Token "Statement option list"

record Program =
  Statements :: "Statement option list"

subsection \<open>Rendering: the \<open>String\<close> methods\<close>

text \<open>
  A \<open>String\<close> method called on a nil interface value panics (nil dereference): the
  rendering functions return \<open>None\<close> for a panic. \<open>on_interface\<close> is the method call on an
  interface value, \<open>write_all\<close> the loop writing each rendered element to the buffer,
  \<open>all_strings\<close> the loop collecting them in a slice.
\<close>

definition on_interface :: "string option option \<Rightarrow> string option" where
  "on_interface r = (case r of None \<Rightarrow> None | Some s \<Rightarrow> s)"

fun all_strings :: "string option list \<Rightarrow> string list option" where
  "all_strings [] = Some []"
| "all_strings (r # rs) =
     (case r of None \<Rightarrow> None
      | Some s \<Rightarrow> (case all_strings rs of None \<Rightarrow> None | Some ss \<Rightarrow> Some (s # ss)))"

definition write_all :: "string option list \<Rightarrow> string option" where
  "write_all rs = map_option concat (all_strings rs)"

text \<open>\<open>strings.Join\<close>.\<close>

fun Join :: "string list \<Rightarrow> string \<Rightarrow> string" where
  "Join [] sep = []"
| "Join [s] sep = s"
| "Join (s # t # ss) sep = s @ sep @ Join (t # ss) sep"

fun Identifier_String :: "Identifier \<Rightarrow> string" where
  "Identifier_String (Identifier tok v) = v"

primrec Expression_String :: "Expression \<Rightarrow> string option"
  and Statement_String :: "Statement \<Rightarrow> string option"
  and BlockStatement_String :: "BlockStatement \<Rightarrow> string option"
where
  "Expression_String (IdentifierExpr i) = Some (Identifier_String i)"
| "Expression_String (IntegerLiteral tok v) = Some (Literal tok)"
| "Expression_String (Boolean tok v) = Some (Literal tok)"
| "Expression_String (PrefixExpression tok operator right) =
     (case on_interface (map_option Expression_String right) of
        None \<Rightarrow> None
      | Some r \<Rightarrow> Some (''('' @ operator @ r @ '')''))"
| "Expression_String (InfixExpression tok left operator right) =
     (case on_interface (map_option Expression_String left) of
        None \<Rightarrow> None
      | Some a \<Rightarrow>
         (case on_interface (map_option Expression_String right) of
            None \<Rightarrow> None
          | Some b \<Rightarrow> Some (''('' @ a @ ('' '' @ operator @ '' '') @ b @ '')'')))"
| "Expression_String (IfExpression tok condition consequence alternative) =
     (case on_interface (map_option Expression_String condition) of
        None \<Rightarrow> None
      | Some c \<Rightarrow>
         (case BlockStatement_String consequence of
            None \<Rightarrow> None
          | Some t \<Rightarrow>
             (case map_option BlockStatement_String alternative of
                None \<Rightarrow> Some (''if'' @ c @ '' '' @ t)
              | Some None \<Rightarrow> None
              | Some (Some e) \<Rightarrow> Some (''if'' @ c @ '' '' @ t @ ''else '' @ e))))"
| "Expression_String (FunctionLiteral tok parameters body) =
     (case BlockStatement_String body of
        None \<Rightarrow> None
      | Some b \<Rightarrow>
          Some (Literal tok @ ''('' @ Join (map Identifier_String parameters) '', '' @ '') '' @ b))"
| "Expression_String (CallExpression tok function arguments) =
     (case all_strings (map on_interface (map (map_option Expression_String) arguments)) of
        None \<Rightarrow> None
      | Some args \<Rightarrow>
         (case on_interface (map_option Expression_String function) of
            None \<Rightarrow> None
          | Some f \<Rightarrow> Some (f @ ''('' @ Join args '', '' @ '')'')))"
| "Statement_String (LetStatement tok name v) =
     (case map_option Expression_String v of
        None \<Rightarrow> Some ((Literal tok @ '' '') @ Identifier_String name @ '' = '' @ '';'')
      | Some None \<Rightarrow> None
      | Some (Some e) \<Rightarrow> Some ((Literal tok @ '' '') @ Identifier_String name @ '' = '' @ e @ '';''))"
| "Statement_String (ReturnStatement tok v) =
     (case map_option Expression_String v of
        None \<Rightarrow> Some ((Literal tok @ '' '') @ '';'')
      | Some None \<Rightarrow> None
      | Some (Some e) \<Rightarrow> Some ((Literal tok @ '' '') @ e @ '';''))"
| "Statement_String (ExpressionStatement tok v) =
     (case map_option Expression_String v of
        None \<Rightarrow> Some []
      | Some r \<Rightarrow> r)"
| "Statement_String (BlockStatementStmt b) = BlockStatement_String b"
| "BlockStatement_String (BlockStatement tok stmts) =
     write_all (map on_interface (map (map_option Statement_String) stmts))"

definition Program_String :: "Program \<Rightarrow> string option" where
  "Program_String prog =
     write_all (map on_interface (map (map_option Statement_String) (Statements prog)))"

section \<open>Library functions the parser calls\<close>

text \<open>
  \<open>fmt.Sprintf("%v", tok)\<close> of a \<open>Token\<close> struct prints its two string fields between braces,
  separated by a space; \<open>"%v"\<close> of a \<open>Type\<close> prints its string.
\<close>

definition Sprint_Token :: "Token \<Rightarrow> string" where
  "Sprint_Token tok = ''{'' @ Type_text (Type tok) @ '' '' @ Literal tok @ ''}''"

text \<open>
  \<open>"%q"\<close> is \<open>strconv.Quote\<close>: the text between double quotes, with \<open>"\<close> and \<open>\\<close>
  backslashed, the control characters escaped, printable characters kept. It is written
  out for the code points up to U+00FF, which is all a token literal can hold (runs of
  ASCII letters or digits, operators, or \<open>string(ch)\<close> of one byte); a byte that does not
  start such a code point is escaped as an invalid byte.
\<close>

definition backslash :: char where
  "backslash = CHR 0x5C"

definition dquote :: char where
  "dquote = CHR 0x22"

definition lowerhex :: "nat \<Rightarrow> char" where
  "lowerhex n = ''0123456789abcdef'' ! (n mod 16)"

definition hex2 :: "nat \<Rightarrow> string" where
  "hex2 n = [lowerhex (n div 16), lowerhex n]"

definition escapeASCII :: "char \<Rightarrow> string" where
  "escapeASCII c =
     (let n = (of_char c :: nat) in
      if c = dquote \<or> c = backslash then [backslash, c]
      else if 32 \<le> n \<and> n \<le> 126 then [c]
      else if n = 7 then [backslash, CHR ''a'']
      else if n = 8 then [backslash, CHR ''b'']
      else if n = 12 then [backslash, CHR ''f'']
      else if n = 10 then [backslash, CHR ''n'']
      else if n = 13 then [backslash, CHR ''r'']
      else if n = 9 then [backslash, CHR ''t'']
      else if n = 11 then [backslash, CHR ''v'']
      else [backslash, CHR ''x''] @ hex2 n)"

fun quoteBody :: "string \<Rightarrow> string" where
  "quoteBody [] = []"
| "quoteBody [c] =
     (if (of_char c :: nat) < 128 then escapeASCII c
      else [backslash, CHR ''x''] @ hex2 (of_char c))"
| "quoteBody (c # d # ds) =
     (let n = (of_char c :: nat); m = (of_char d :: nat) in
      if n < 128 then escapeASCII c @ quoteBody (d # ds)
      else if (n = 194 \<or> n = 195) \<and> 128 \<le> m \<and> m < 192 then
        (let r = (n - 192) * 64 + (m - 128) in
         (if 161 \<le> r \<and> r \<noteq> 173 then [c, d]
          else [backslash, CHR ''u'', CHR ''0'', CHR ''0''] @ hex2 r) @ quoteBody ds)
      else [backslash, CHR ''x''] @ hex2 n @ quoteBody (d # ds))"

definition Quote :: "string \<Rightarrow> string" where
  "Quote s = [dquote] @ quoteBody s @ [dquote]"

text \<open>
  \<open>strconv.ParseInt(s, 0, 64)\<close> on a run of decimal digits, the only text an \<open>INT\<close> token
  carries: with base 0 a leading \<open>0\<close> selects octal, and a digit outside the base, the
  empty string or a value of \<open>2^63\<close> or more is an error (\<open>None\<close>). Signs, the \<open>0x\<close>,
  \<open>0b\<close>, \<open>0o\<close> prefixes and underscores never reach the parser and are not modelled: any
  other byte is a syntax error here.
\<close>

fun parseDigits :: "nat \<Rightarrow> string \<Rightarrow> nat \<Rightarrow> nat option" where
  "parseDigits base [] acc = Some acc"
| "parseDigits base (c # cs) acc =
     (if isDigit c \<and> (of_char c :: nat) - 48 < base
      then parseDigits base cs (acc * base + ((of_char c :: nat) - 48))
      else None)"

definition ParseInt :: "string \<Rightarrow> int option" where
  "ParseInt s =
     (case s of
        [] \<Rightarrow> None
      | c # cs \<Rightarrow>
         (case (if c = CHR ''0'' then parseDigits 8 cs 0 else parseDigits 10 s 0) of
            None \<Rightarrow> None
          | Some n \<Rightarrow> if n < 2 ^ 63 then Some (int n) else None))"

section \<open>Package parser\<close>

definition LOWEST :: int where "LOWEST = 1"
definition EQUALS :: int where "EQUALS = 2"
definition LESSGREATER :: int where "LESSGREATER = 3"
definition SUM' :: int where "SUM' = 4"
definition PRODUCT :: int where "PRODUCT = 5"
definition PREFIX :: int where "PREFIX = 6"
definition CALL :: int where "CALL = 7"

definition precedences :: "Type \<rightharpoonup> int" where
  "precedences = map_of
     [(EQ, EQUALS), (NOTEQ, EQUALS), (LT, LESSGREATER), (GT, LESSGREATER),
      (PLUS, SUM'), (MINUS, SUM'), (SLASH, PRODUCT), (ASTERISK, PRODUCT)]"

text \<open>
  The parse functions are mutually recursive, so the three dispatch tables hold the name
  of the function registered for a token type. \<open>New\<close> fills them the same way for every
  parser; they are constants here rather than fields.
\<close>

datatype prefixParseFn =
    ParseIdentifier | ParseIntegerLiteral | ParseBooleanLiteral | ParsePrefixOperator
  | ParseGroupedExpression | ParseIfExpression | ParseFunctionExpression

datatype infixParseFn = ParseInfixExpression

datatype parselet = LetStatementParselet | ReturnStatementParselet | BlockStatementParselet

definition parselets :: "Type \<rightharpoonup> parselet" where
  "parselets = map_of
     [(LET, LetStatementParselet), (RETURN, ReturnStatementParselet),
      (LBRACE, BlockStatementParselet)]"

definition prefixParsers :: "Type \<rightharpoonup> prefixParseFn" where
  "prefixParsers = map_of
     [(IDENT, ParseIdentifier), (INT', ParseIntegerLiteral), (TRUE, ParseBooleanLiteral),
      (FALSE, ParseBooleanLiteral), (BANG, ParsePrefixOperator), (MINUS, ParsePrefixOperator),
      (LPAREN, ParseGroupedExpression), (IF, ParseIfExpression),
      (FUNCTION, ParseFunctionExpression)]"

definition infixParsers :: "Type \<rightharpoonup> infixParseFn" where
  "infixParsers = map_of
     [(PLUS, ParseInfixExpression), (MINUS, ParseInfixExpression),
      (ASTERISK, ParseInfixExpression), (SLASH, ParseInfixExpression),
      (LT, ParseInfixExpression), (GT, ParseInfixExpression), (EQ, ParseInfixExpression),
      (NOTEQ, ParseInfixExpression)]"

record Parser =
  lexer :: Lexer
  currentToken :: Token
  nextToken :: Token
  errors :: "string list"

definition consumeNextToken :: "Parser \<Rightarrow> Parser" where
  "consumeNextToken p =
     (if Type (currentToken p) = EOF then p
      else case NextToken (lexer p) of
             (tok, l') \<Rightarrow> p\<lparr>currentToken := nextToken p, nextToken := tok, lexer := l'\<rparr>)"

definition Parser_New :: "Lexer \<Rightarrow> Parser" where
  "Parser_New l =
     consumeNextToken (consumeNextToken
       \<lparr>lexer = l, currentToken = zeroToken, nextToken = zeroToken, errors = []\<rparr>)"

definition addError :: "string \<Rightarrow> Parser \<Rightarrow> Parser" where
  "addError err p = p\<lparr>errors := errors p @ [err]\<rparr>"

definition Errors :: "Parser \<Rightarrow> string list" where
  "Errors p = errors p"

definition consumeToken :: "Type \<Rightarrow> Parser \<Rightarrow> Parser" where
  "consumeToken t p =
     consumeNextToken
       (if Type (currentToken p) \<noteq> t
        then addError (''Could not properly consume token: '' @ Sprint_Token (currentToken p)
                         @ '' expected: '' @ Type_text t) p
        else p)"

definition getCurrentPrecedence :: "Parser \<Rightarrow> int" where
  "getCurrentPrecedence p =
     (case precedences (Type (currentToken p)) of None \<Rightarrow> LOWEST | Some precedence \<Rightarrow> precedence)"

text \<open>
  \<open>parseIdentifier\<close> returns the \<open>*ast.Identifier\<close> it builds. As a prefix parser its result
  is the \<open>Expression\<close> holding that node; the assertion \<open>.(*ast.Identifier)\<close> in
  \<open>parseFunctionExpression\<close> gives the node back and cannot fail.
\<close>

definition parseIdentifier :: "Parser \<Rightarrow> Identifier \<times> Parser" where
  "parseIdentifier p =
     (Identifier (currentToken p) (Literal (currentToken p)), consumeNextToken p)"

definition parseIntegerLiteral :: "Parser \<Rightarrow> Expression option \<times> Parser" where
  "parseIntegerLiteral p =
     (let tok = currentToken p;
          r = ParseInt (Literal (currentToken p));
          p1 = consumeNextToken p
      in case r of
           None \<Rightarrow>
             (None, addError (''Could not parse '' @ Quote (Literal (currentToken p1))
                               @ '' as integer'') p1)
         | Some val \<Rightarrow> (Some (IntegerLiteral tok val), p1))"

definition parseBooleanLiteral :: "Parser \<Rightarrow> Expression option \<times> Parser" where
  "parseBooleanLiteral p =
     (Some (Boolean (currentToken p) (Type (currentToken p) = TRUE)), consumeNextToken p)"

subsection \<open>The tokens left to read\<close>

definition tokens_left :: "Parser \<Rightarrow> nat" where
  "tokens_left p =
     (if Type (currentToken p) = EOF then 0
      else if Type (nextToken p) = EOF then 1
      else 2 + lexer_rest (lexer p))"

lemma consumeNextToken_EOF:
  "Type (currentToken p) = EOF \<Longrightarrow> consumeNextToken p = p"
  by (simp add: consumeNextToken_def)

lemma consumeNextToken_left:
  "Type (currentToken p) \<noteq> EOF \<Longrightarrow> tokens_left (consumeNextToken p) < tokens_left p"
  using NextToken_rest [of "lexer p"]
  by (cases "NextToken (lexer p)") (auto simp: consumeNextToken_def tokens_left_def)

lemma consumeNextToken_left_le: "tokens_left (consumeNextToken p) \<le> tokens_left p"
  using consumeNextToken_left [of p] consumeNextToken_EOF [of p]
  by (cases "Type (currentToken p) = EOF") auto

lemma tokens_left_addError [simp]: "tokens_left (addError e p) = tokens_left p"
  by (simp add: addError_def tokens_left_def)

lemma currentToken_addError [simp]: "currentToken (addError e p) = currentToken p"
  by (simp add: addError_def)

lemma consumeToken_left:
  "Type (currentToken p) \<noteq> EOF \<Longrightarrow> tokens_left (consumeToken t p) < tokens_left p"
  using consumeNextToken_left [of p] consumeNextToken_left [of "addError e p" for e]
  by (auto simp: consumeToken_def)

lemma consumeToken_left_le: "tokens_left (consumeToken t p) \<le> tokens_left p"
  using consumeNextToken_left_le [of p] consumeNextToken_left_le [of "addError e p" for e]
  by (auto simp: consumeToken_def)

text \<open>
  The parameter loop of \<open>parseFunctionExpression\<close>. Every iteration consumes the current
  token, which is not the end marker, so the loop ends.
\<close>

function parseParameters :: "Identifier list \<Rightarrow> Parser \<Rightarrow> Identifier list \<times> Parser" where
  "parseParameters params p =
     (if Type (currentToken p) \<noteq> EOF \<and> Type (currentToken p) \<noteq> RPAREN
      then case parseIdentifier p of
             (i, p1) \<Rightarrow>
               parseParameters (params @ [i])
                 (if Type (currentToken p1) = COMMA then consumeToken COMMA p1 else p1)
      else (params, p))"
  by pat_completeness auto
termination
proof (relation "measure (\<lambda>(params, p). tokens_left p)")
  show "wf (measure (\<lambda>(params, p). tokens_left p))" by simp
next
  fix params :: "Identifier list" and p x y
  assume a: "Type (currentToken p) \<noteq> EOF \<and> Type (currentToken p) \<noteq> RPAREN"
    and b: "(x, y) = parseIdentifier p"
  have "y = consumeNextToken p" using b by (simp add: parseIdentifier_def)
  then have "tokens_left y < tokens_left p" using a consumeNextToken_left by simp
  moreover have "tokens_left (consumeToken COMMA y) \<le> tokens_left y"
    by (rule consumeToken_left_le)
  ultimately show "((params @ [x], if Type (currentToken y) = COMMA then consumeToken COMMA y else y),
          params, p) \<in> measure (\<lambda>(params, p). tokens_left p)"
    by auto
qed

declare parseParameters.simps [simp del]

subsection \<open>The recursive descent\<close>

text \<open>
  \<open>parseExpression\<close> and \<open>parseStatement\<close> call each other through the other parse
  functions and thread the parser through the calls. The recursion is tied by fuel:
  \<open>parseExpression (Suc n)\<close> and \<open>parseStatement (Suc n)\<close> run the Go bodies with
  \<open>parseExpression n\<close> and \<open>parseStatement n\<close> for the calls \<open>p.parseExpression(...)\<close> and
  \<open>p.parseStatement()\<close>, and the loops run at most \<open>n\<close> iterations. So every other parse
  function takes the functions it calls (\<open>pe\<close> for \<open>p.parseExpression\<close>, \<open>ps\<close> for
  \<open>p.parseStatement\<close>) and the loop bound \<open>k\<close> as arguments. \<open>OutOfFuel\<close> is the only
  result of running out; that enough fuel always exists is theorem
  \<open>ParseProgram_terminates\<close>. \<open>Panic\<close> is a Go run-time panic, here the failed type
  assertion \<open>.(*ast.BlockStatement)\<close> on the nil that \<open>blockStatementParselet\<close> returns
  when the current token is not \<open>{\<close>.
\<close>

datatype 'a outcome = OutOfFuel | Panic | Done 'a Parser

definition bind :: "'a outcome \<Rightarrow> ('a \<Rightarrow> Parser \<Rightarrow> 'b outcome) \<Rightarrow> 'b outcome" where
  "bind m f = (case m of OutOfFuel \<Rightarrow> OutOfFuel | Panic \<Rightarrow> Panic | Done a p \<Rightarrow> f a p)"

lemma bind_cong [fundef_cong]:
  "m = m' \<Longrightarrow> (\<And>a p. m' = Done a p \<Longrightarrow> f a p = f' a p) \<Longrightarrow> bind m f = bind m' f'"
  by (auto simp: bind_def split: outcome.splits)

lemma bind_simps [simp]:
  "bind OutOfFuel f = OutOfFuel"
  "bind Panic f = Panic"
  "bind (Done a p) f = f a p"
  by (simp_all add: bind_def)

type_synonym expression_parser = "int \<Rightarrow> Parser \<Rightarrow> Expression option outcome"
type_synonym statement_parser = "Parser \<Rightarrow> Statement option outcome"

text \<open>The type assertion \<open>s.(*ast.BlockStatement)\<close> on a \<open>Statement\<close> interface value.\<close>

fun assertBlockStatement :: "Statement option \<Rightarrow> BlockStatement option" where
  "assertBlockStatement (Some (BlockStatementStmt b)) = Some b"
| "assertBlockStatement s = None"

definition parsePrefixOperator :: "expression_parser \<Rightarrow> Parser \<Rightarrow> Expression option outcome" where
  "parsePrefixOperator pe p =
     (let tok = currentToken p; operator = Literal (currentToken p);
          p1 = consumeNextToken p
      in bind (pe PREFIX p1)
           (\<lambda>right p2. Done (Some (PrefixExpression tok operator right)) p2))"

definition parseGroupedExpression :: "expression_parser \<Rightarrow> Parser \<Rightarrow> Expression option outcome" where
  "parseGroupedExpression pe p =
     (let p1 = consumeToken LPAREN p
      in bind (pe LOWEST p1) (\<lambda>expr p2. Done expr (consumeToken RPAREN p2)))"

definition parseInfixExpression ::
  "expression_parser \<Rightarrow> Expression option \<Rightarrow> Parser \<Rightarrow> Expression option outcome" where
  "parseInfixExpression pe left p =
     (let tok = currentToken p; operator = Literal (currentToken p);
          precedence = getCurrentPrecedence p;
          p1 = consumeNextToken p
      in bind (pe precedence p1)
           (\<lambda>right p2. Done (Some (InfixExpression tok left operator right)) p2))"

text \<open>The \<open>for\<close> loop of \<open>parseExpression\<close>.\<close>

fun infixLoop ::
  "expression_parser \<Rightarrow> nat \<Rightarrow> int \<Rightarrow> Expression option \<Rightarrow> Parser \<Rightarrow> Expression option outcome"
where
  "infixLoop pe 0 precedence left p = OutOfFuel"
| "infixLoop pe (Suc k) precedence left p =
     (if Type (currentToken p) \<noteq> SEMICOLON \<and> precedence < getCurrentPrecedence p
      then case infixParsers (Type (currentToken p)) of
             None \<Rightarrow> Done left p
           | Some ParseInfixExpression \<Rightarrow>
               bind (parseInfixExpression pe left p)
                 (\<lambda>left1 p1. infixLoop pe k precedence left1 p1)
      else Done left p)"

text \<open>The \<open>for\<close> loop of \<open>blockStatementParselet\<close>.\<close>

fun blockLoop ::
  "statement_parser \<Rightarrow> nat \<Rightarrow> Statement option list \<Rightarrow> Parser \<Rightarrow> Statement option list outcome"
where
  "blockLoop ps 0 stmts p = OutOfFuel"
| "blockLoop ps (Suc k) stmts p =
     (if Type (currentToken p) \<noteq> EOF \<and> Type (currentToken p) \<noteq> RBRACE
      then bind (ps p) (\<lambda>s p1. blockLoop ps k (stmts @ [s]) p1)
      else Done stmts p)"

definition blockStatementParselet :: "statement_parser \<Rightarrow> nat \<Rightarrow> Parser \<Rightarrow> Statement option outcome" where
  "blockStatementParselet ps k p =
     (if Type (currentToken p) \<noteq> LBRACE then Done None p
      else let tok = currentToken p;
               p1 = consumeToken LBRACE p
           in bind (blockLoop ps k [] p1)
                (\<lambda>stmts p2.
                   Done (Some (BlockStatementStmt (BlockStatement tok stmts)))
                     (consumeToken RBRACE p2)))"

definition parseIfExpression ::
  "expression_parser \<Rightarrow> statement_parser \<Rightarrow> nat \<Rightarrow> Parser \<Rightarrow> Expression option outcome" where
  "parseIfExpression pe ps k p =
     (let tok = currentToken p;
          p1 = consumeToken IF p;
          p2 = consumeToken LPAREN p1
      in bind (pe LOWEST p2)
           (\<lambda>condition p3.
              bind (blockStatementParselet ps k (consumeToken RPAREN p3))
                (\<lambda>s p4.
                   case assertBlockStatement s of
                     None \<Rightarrow> Panic
                   | Some consequence \<Rightarrow>
                       if Type (currentToken p4) \<noteq> ELSE
                       then Done (Some (IfExpression tok condition consequence None)) p4
                       else bind (blockStatementParselet ps k (consumeToken ELSE p4))
                              (\<lambda>s1 p5.
                                 case assertBlockStatement s1 of
                                   None \<Rightarrow> Panic
                                 | Some alternative \<Rightarrow>
                                     Done (Some (IfExpression tok condition consequence
                                                   (Some alternative))) p5))))"

definition parseFunctionExpression ::
  "statement_parser \<Rightarrow> nat \<Rightarrow> Parser \<Rightarrow> Expression option outcome" where
  "parseFunctionExpression ps k p =
     (let tok = currentToken p;
          p1 = consumeToken FUNCTION p;
          p2 = consumeToken LPAREN p1
      in case parseParameters [] p2 of
           (parameters, p3) \<Rightarrow>
             bind (blockStatementParselet ps k (consumeToken RPAREN p3))
               (\<lambda>s p4.
                  case assertBlockStatement s of
                    None \<Rightarrow> Panic
                  | Some body \<Rightarrow> Done (Some (FunctionLiteral tok parameters body)) p4))"

text \<open>Calling the prefix parse function registered for the current token.\<close>

fun prefixParser ::
  "expression_parser \<Rightarrow> statement_parser \<Rightarrow> nat \<Rightarrow> prefixParseFn \<Rightarrow> Parser
     \<Rightarrow> Expression option outcome"
where
  "prefixParser pe ps k ParseIdentifier p =
     (case parseIdentifier p of (i, p1) \<Rightarrow> Done (Some (IdentifierExpr i)) p1)"
| "prefixParser pe ps k ParseIntegerLiteral p =
     (case parseIntegerLiteral p of (e, p1) \<Rightarrow> Done e p1)"
| "prefixParser pe ps k ParseBooleanLiteral p =
     (case parseBooleanLiteral p of (e, p1) \<Rightarrow> Done e p1)"
| "prefixParser pe ps k ParsePrefixOperator p = parsePrefixOperator pe p"
| "prefixParser pe ps k ParseGroupedExpression p = parseGroupedExpression pe p"
| "prefixParser pe ps k ParseIfExpression p = parseIfExpression pe ps k p"
| "prefixParser pe ps k ParseFunctionExpression p = parseFunctionExpression ps k p"

text \<open>The body of \<open>parseExpression\<close>.\<close>

definition parseExpressionBody ::
  "expression_parser \<Rightarrow> statement_parser \<Rightarrow> nat \<Rightarrow> int \<Rightarrow> Parser \<Rightarrow> Expression option outcome"
where
  "parseExpressionBody pe ps k precedence p =
     (case prefixParsers (Type (currentToken p)) of
        None \<Rightarrow>
          Done None
            (consumeNextToken
               (addError (''Unable to consume prefix: '' @ Sprint_Token (currentToken p)) p))
      | Some fn \<Rightarrow>
          bind (prefixParser pe ps k fn p) (\<lambda>left p1. infixLoop pe k precedence left p1))"

definition letStatementParselet :: "expression_parser \<Rightarrow> Parser \<Rightarrow> Statement option outcome" where
  "letStatementParselet pe p =
     (if Type (currentToken p) \<noteq> LET then Done None p
      else let tok = currentToken p;
               p1 = consumeToken LET p;
               name = Identifier (currentToken p1) (Literal (currentToken p1));
               p2 = consumeToken IDENT p1;
               p3 = consumeToken ASSIGN p2
           in bind (pe LOWEST p3)
                (\<lambda>v p4. Done (Some (LetStatement tok name v)) (consumeToken SEMICOLON p4)))"

definition returnStatementParselet :: "expression_parser \<Rightarrow> Parser \<Rightarrow> Statement option outcome" where
  "returnStatementParselet pe p =
     (if Type (currentToken p) \<noteq> RETURN then Done None p
      else let tok = currentToken p;
               p1 = consumeToken RETURN p
           in bind (pe LOWEST p1)
                (\<lambda>v p2. Done (Some (ReturnStatement tok v)) (consumeToken SEMICOLON p2)))"

text \<open>
  In \<open>expressionStatementParselet\<close> the struct literal reads \<open>p.currentToken\<close> and calls
  \<open>parseExpression\<close>; Go does not fix the order of the read and the call. The model reads
  first, and no theorem below depends on the \<open>Token\<close> of an \<open>ExpressionStatement\<close>.
\<close>

definition expressionStatementParselet :: "expression_parser \<Rightarrow> Parser \<Rightarrow> Statement option outcome" where
  "expressionStatementParselet pe p =
     (let tok = currentToken p
      in bind (pe LOWEST p)
           (\<lambda>expr p1.
              Done (Some (ExpressionStatement tok expr))
                (if Type (currentToken p1) = SEMICOLON then consumeToken SEMICOLON p1 else p1)))"

text \<open>The body of \<open>parseStatement\<close>.\<close>

definition parseStatementBody ::
  "expression_parser \<Rightarrow> statement_parser \<Rightarrow> nat \<Rightarrow> Parser \<Rightarrow> Statement option outcome" where
  "parseStatementBody pe ps k p =
     (case parselets (Type (currentToken p)) of
        None \<Rightarrow> expressionStatementParselet pe p
      | Some LetStatementParselet \<Rightarrow> letStatementParselet pe p
      | Some ReturnStatementParselet \<Rightarrow> returnStatementParselet pe p
      | Some BlockStatementParselet \<Rightarrow> blockStatementParselet ps k p)"

primrec parseLevel :: "nat \<Rightarrow> expression_parser \<times> statement_parser" where
  "parseLevel 0 = ((\<lambda>precedence p. OutOfFuel), (\<lambda>p. OutOfFuel))"
| "parseLevel (Suc n) =
     (parseExpressionBody (fst (parseLevel n)) (snd (parseLevel n)) n,
      parseStatementBody (fst (parseLevel n)) (snd (parseLevel n)) n)"

definition parseExpression :: "nat \<Rightarrow> expression_parser" where
  "parseExpression n = fst (parseLevel n)"

definition parseStatement :: "nat \<Rightarrow> statement_parser" where
  "parseStatement n = snd (parseLevel n)"

lemma parseExpression_0 [simp, code]: "parseExpression 0 precedence p = OutOfFuel"
  by (simp add: parseExpression_def)

lemma parseExpression_Suc [code]:
  "parseExpression (Suc n) precedence p =
     parseExpressionBody (parseExpression n) (parseStatement n) n precedence p"
  by (simp add: parseExpression_def parseStatement_def)

lemma parseStatement_0 [simp, code]: "parseStatement 0 p = OutOfFuel"
  by (simp add: parseStatement_def)

lemma parseStatement_Suc [code]:
  "parseStatement (Suc n) p =
     parseStatementBody (parseExpression n) (parseStatement n) n p"
  by (simp add: parseExpression_def parseStatement_def)

text \<open>The loop of \<open>ParseProgram\<close>, and \<open>ParseProgram\<close>.\<close>

fun programLoop ::
  "statement_parser \<Rightarrow> nat \<Rightarrow> Statement option list \<Rightarrow> Parser \<Rightarrow> Statement option list outcome"
where
  "programLoop ps 0 stmts p = OutOfFuel"
| "programLoop ps (Suc k) stmts p =
     (if Type (currentToken p) \<noteq> EOF
      then bind (ps p) (\<lambda>s p1. programLoop ps k (stmts @ [s]) p1)
      else Done stmts p)"

definition ParseProgram :: "nat \<Rightarrow> Parser \<Rightarrow> Program outcome" where
  "ParseProgram n p =
     bind (programLoop (parseStatement n) n [] p) (\<lambda>stmts p1. Done \<lparr>Statements = stmts\<rparr> p1)"

text \<open>\<open>parser.New(lexer.New(s)).ParseProgram()\<close>: parsing a source text.\<close>

definition parse_source :: "nat \<Rightarrow> string \<Rightarrow> Program outcome" where
  "parse_source n s = ParseProgram n (Parser_New (Lexer_New s))"

subsection \<open>Measures of progress\<close>

text \<open>
  \<open>advances p r\<close>: a call that started at \<open>p\<close> and returned has consumed a token, unless
  \<open>p\<close> was at the end marker already (\<open>tokens_left\<close> is 0 there). \<open>live_e pe m\<close>: the
  expression parser \<open>pe\<close> has fuel enough for every state with fewer than \<open>m\<close> tokens
  left.
\<close>

definition advances :: "Parser \<Rightarrow> 'a outcome \<Rightarrow> bool" where
  "advances p r \<longleftrightarrow> (\<forall>a p'. r = Done a p' \<longrightarrow> tokens_left p' \<le> tokens_left p - 1)"

definition no_more :: "Parser \<Rightarrow> 'a outcome \<Rightarrow> bool" where
  "no_more p r \<longleftrightarrow> (\<forall>a p'. r = Done a p' \<longrightarrow> tokens_left p' \<le> tokens_left p)"

definition consumes_e :: "expression_parser \<Rightarrow> bool" where
  "consumes_e pe \<longleftrightarrow> (\<forall>precedence p. advances p (pe precedence p))"

definition consumes_s :: "statement_parser \<Rightarrow> bool" where
  "consumes_s ps \<longleftrightarrow> (\<forall>p. advances p (ps p))"

definition live_e :: "expression_parser \<Rightarrow> nat \<Rightarrow> bool" where
  "live_e pe m \<longleftrightarrow> (\<forall>precedence p. tokens_left p < m \<longrightarrow> pe precedence p \<noteq> OutOfFuel)"

definition live_s :: "statement_parser \<Rightarrow> nat \<Rightarrow> bool" where
  "live_s ps m \<longleftrightarrow> (\<forall>p. tokens_left p < m \<longrightarrow> ps p \<noteq> OutOfFuel)"

text \<open>
  \<open>extends_e pe pe'\<close>: wherever \<open>pe\<close> does not run out of fuel, \<open>pe'\<close> gives the same
  result.
\<close>

definition extends_e :: "expression_parser \<Rightarrow> expression_parser \<Rightarrow> bool" where
  "extends_e pe pe' \<longleftrightarrow> (\<forall>precedence p. pe precedence p \<noteq> OutOfFuel \<longrightarrow> pe' precedence p = pe precedence p)"

definition extends_s :: "statement_parser \<Rightarrow> statement_parser \<Rightarrow> bool" where
  "extends_s ps ps' \<longleftrightarrow> (\<forall>p. ps p \<noteq> OutOfFuel \<longrightarrow> ps' p = ps p)"

subsection \<open>Call expressions in a syntax tree\<close>

text \<open>
  \<open>contains_call e\<close>: a \<open>CallExpression\<close> node occurs in \<open>e\<close>, at any depth. \<open>no_call\<close> and
  \<open>no_call_stmt\<close> say so of a possibly nil expression or statement.
\<close>

primrec contains_call :: "Expression \<Rightarrow> bool"
  and contains_call_stmt :: "Statement \<Rightarrow> bool"
  and contains_call_block :: "BlockStatement \<Rightarrow> bool"
where
  "contains_call (IdentifierExpr i) = False"
| "contains_call (IntegerLiteral tok v) = False"
| "contains_call (Boolean tok v) = False"
| "contains_call (PrefixExpression tok operator right) =
     (map_option contains_call right = Some True)"
| "contains_call (InfixExpression tok left operator right) =
     (map_option contains_call left = Some True \<or> map_option contains_call right = Some True)"
| "contains_call (IfExpression tok condition consequence alternative) =
     (map_option contains_call condition = Some True \<or> contains_call_block consequence
      \<or> map_option contains_call_block alternative = Some True)"
| "contains_call (FunctionLiteral tok parameters body) = contains_call_block body"
| "contains_call (CallExpression tok function arguments) = True"
| "contains_call_stmt (LetStatement tok name v) = (map_option contains_call v = Some True)"
| "contains_call_stmt (ReturnStatement tok v) = (map_option contains_call v = Some True)"
| "contains_call_stmt (ExpressionStatement tok v) = (map_option contains_call v = Some True)"
| "contains_call_stmt (BlockStatementStmt b) = contains_call_block b"
| "contains_call_block (BlockStatement tok stmts) =
     (Some True \<in> set (map (map_option contains_call_stmt) stmts))"

definition no_call :: "Expression option \<Rightarrow> bool" where
  "no_call e \<longleftrightarrow> map_option contains_call e \<noteq> Some True"

definition no_call_stmt :: "Statement option \<Rightarrow> bool" where
  "no_call_stmt s \<longleftrightarrow> map_option contains_call_stmt s \<noteq> Some True"

definition program_contains_call :: "Program outcome \<Rightarrow> bool" where
  "program_contains_call r =
     (case r of Done prog p \<Rightarrow> \<not> list_all no_call_stmt (Statements prog) | _ \<Rightarrow> False)"

definition callfree_e :: "expression_parser \<Rightarrow> bool" where
  "callfree_e pe \<longleftrightarrow> (\<forall>precedence p e p'. pe precedence p = Done e p' \<longrightarrow> no_call e)"

definition callfree_s :: "statement_parser \<Rightarrow> bool" where
  "callfree_s ps \<longleftrightarrow> (\<forall>p s p'. ps p = Done s p' \<longrightarrow> no_call_stmt s)"

subsection \<open>What a caller sees of a parse\<close>

text \<open>
  \<open>diagnostics\<close> is \<open>p.Errors()\<close> after the call, \<open>rendered\<close> is \<open>program.String()\<close>;
  both are \<open>None\<close> when the call did not return. \<open>expressions\<close> lists the expression of
  each top-level expression statement (\<open>None\<close> for nil, and for other statements).
\<close>

definition diagnostics :: "'a outcome \<Rightarrow> string list option" where
  "diagnostics r = (case r of Done a p \<Rightarrow> Some (Errors p) | _ \<Rightarrow> None)"

definition rendered :: "Program outcome \<Rightarrow> string option" where
  "rendered r = (case r of Done prog p \<Rightarrow> Program_String prog | _ \<Rightarrow> None)"

fun statement_expression :: "Statement option \<Rightarrow> Expression option" where
  "statement_expression (Some (ExpressionStatement tok e)) = e"
| "statement_expression s = None"

definition expressions :: "Program outcome \<Rightarrow> Expression option list option" where
  "expressions r =
     (case r of Done prog p \<Rightarrow> Some (map statement_expression (Statements prog)) | _ \<Rightarrow> None)"

text \<open>What the claims look at in a function literal.\<close>

fun parameter_names :: "Expression option \<Rightarrow> string list option" where
  "parameter_names (Some (FunctionLiteral tok parameters body)) =
     Some (map Identifier_String parameters)"
| "parameter_names e = None"

fun body_statements :: "Expression option \<Rightarrow> Statement option list option" where
  "body_statements (Some (FunctionLiteral tok parameters (BlockStatement t stmts))) = Some stmts"
| "body_statements e = None"

fun isExpressionStatement :: "Statement option \<Rightarrow> bool" where
  "isExpressionStatement (Some (ExpressionStatement tok e)) = True"
| "isExpressionStatement s = False"

subsection \<open>The tokens of a text, and the tokens a parser has still to read\<close>

text \<open>The part of the input that the lexer has not passed: the bytes from \<open>position\<close> on.\<close>

definition remaining :: "Lexer \<Rightarrow> string" where
  "remaining l = drop (position l) (input l)"

text \<open>The first byte of a text, the sentinel for the empty text, as \<open>ch\<close> holds it.\<close>

definition first :: "string \<Rightarrow> char" where
  "first s = (case s of [] \<Rightarrow> NUL | c # cs \<Rightarrow> c)"

lemma NextToken_rest_less:
  "(tok, l') = NextToken l \<Longrightarrow> Type tok \<noteq> EOF \<Longrightarrow> lexer_rest l' < lexer_rest l"
  using NextToken_rest [of l tok l'] by simp

text \<open>All tokens that repeated calls of \<open>NextToken\<close> return before the end marker.\<close>

function lex_all :: "Lexer \<Rightarrow> Token list" where
  "lex_all l = (case NextToken l of (tok, l') \<Rightarrow> if Type tok = EOF then [] else tok # lex_all l')"
  by pat_completeness auto
termination
  by (relation "measure lexer_rest") (auto intro: NextToken_rest_less)

declare lex_all.simps [simp del]

text \<open>
  The tokens a parser will see, from its current token on: the current token, the
  lookahead token, and what its lexer still produces.
\<close>

definition pending :: "Parser \<Rightarrow> Token list" where
  "pending p =
     (if Type (currentToken p) = EOF then []
      else currentToken p #
           (if Type (nextToken p) = EOF then [] else nextToken p # lex_all (lexer p)))"

text \<open>\<open>lexes l toks l'\<close>: calling \<open>NextToken\<close> from \<open>l\<close> returns the tokens \<open>toks\<close> and ends in \<open>l'\<close>.\<close>

inductive lexes :: "Lexer \<Rightarrow> Token list \<Rightarrow> Lexer \<Rightarrow> bool" where
  stop: "lexes l [] l"
| more: "NextToken l = (tok, l1) \<Longrightarrow> Type tok \<noteq> EOF \<Longrightarrow> lexes l1 toks l' \<Longrightarrow>
         lexes l (tok # toks) l'"

definition lexes_to :: "Lexer \<Rightarrow> Token list \<Rightarrow> string \<Rightarrow> bool" where
  "lexes_to l toks rest \<longleftrightarrow> (\<exists>l'. lexes l toks l' \<and> lexer_inv l' \<and> remaining l' = rest)"

text \<open>A text after which a word or a number ends: it starts with no letter and no digit.\<close>

definition boundary :: "string \<Rightarrow> bool" where
  "boundary rest \<longleftrightarrow> \<not> isCharacter (first rest) \<and> \<not> isDigit (first rest)"

text \<open>
  \<open>lexes_as src toks\<close>: wherever the text \<open>src\<close> stands in an input, followed by a
  boundary, the lexer reads it as the tokens \<open>toks\<close>.
\<close>

definition lexes_as :: "string \<Rightarrow> Token list \<Rightarrow> bool" where
  "lexes_as src toks \<longleftrightarrow>
     src \<noteq> [] \<and> first src \<noteq> CHR ''='' \<and> toks \<noteq> []
     \<and> (\<forall>l rest. lexer_inv l \<longrightarrow> remaining l = src @ rest \<longrightarrow> boundary rest \<longrightarrow>
            lexes_to l toks rest)"

definition punctuation :: "char \<Rightarrow> bool" where
  "punctuation c \<longleftrightarrow> c \<in> set ''()+-*/<>!=;''"

subsection \<open>Operator expressions\<close>

text \<open>
  The tokens of the two prefix operators and of the eight infix operators, and the
  two parentheses.
\<close>

definition prefix_operators :: "Token list" where
  "prefix_operators = [\<lparr>Type = BANG, Literal = ''!''\<rparr>, \<lparr>Type = MINUS, Literal = ''-''\<rparr>]"

definition infix_operators :: "Token list" where
  "infix_operators =
     [\<lparr>Type = PLUS, Literal = ''+''\<rparr>, \<lparr>Type = MINUS, Literal = ''-''\<rparr>,
      \<lparr>Type = ASTERISK, Literal = ''*''\<rparr>, \<lparr>Type = SLASH, Literal = ''/''\<rparr>,
      \<lparr>Type = LT, Literal = ''<''\<rparr>, \<lparr>Type = GT, Literal = ''>''\<rparr>,
      \<lparr>Type = EQ, Literal = ''==''\<rparr>, \<lparr>Type = NOTEQ, Literal = ''!=''\<rparr>]"

definition lparen :: Token where "lparen = \<lparr>Type = LPAREN, Literal = ''(''\<rparr>"
definition rparen :: Token where "rparen = \<lparr>Type = RPAREN, Literal = '')''\<rparr>"

text \<open>
  \<open>atom t e\<close>: the token \<open>t\<close> is an identifier that is no keyword, an integer literal in
  the range of \<open>int64\<close>, \<open>true\<close> or \<open>false\<close>, and \<open>e\<close> is the node that its prefix parse
  function builds from it.
\<close>

inductive atom :: "Token \<Rightarrow> Expression \<Rightarrow> bool" where
  name: "name \<noteq> [] \<Longrightarrow> list_all isCharacter name \<Longrightarrow> keywordTable name = None \<Longrightarrow>
          atom \<lparr>Type = IDENT, Literal = name\<rparr>
            (IdentifierExpr (Identifier \<lparr>Type = IDENT, Literal = name\<rparr> name))"
| literal: "lit \<noteq> [] \<Longrightarrow> list_all isDigit lit \<Longrightarrow> ParseInt lit = Some v \<Longrightarrow>
        atom \<lparr>Type = INT', Literal = lit\<rparr> (IntegerLiteral \<lparr>Type = INT', Literal = lit\<rparr> v)"
| bool_true: "atom \<lparr>Type = TRUE, Literal = ''true''\<rparr>
                (Boolean \<lparr>Type = TRUE, Literal = ''true''\<rparr> True)"
| bool_false: "atom \<lparr>Type = FALSE, Literal = ''false''\<rparr>
                 (Boolean \<lparr>Type = FALSE, Literal = ''false''\<rparr> False)"

text \<open>
  The expressions built from atoms with the prefix and the infix operators, each node
  holding its operator token and that token's literal, as the parser builds them.
\<close>

inductive operator_expr :: "Expression \<Rightarrow> bool" where
  leaf: "atom t e \<Longrightarrow> operator_expr e"
| unary: "tok \<in> set prefix_operators \<Longrightarrow> operator_expr right \<Longrightarrow>
           operator_expr (PrefixExpression tok (Literal tok) (Some right))"
| binary: "tok \<in> set infix_operators \<Longrightarrow> operator_expr left \<Longrightarrow> operator_expr right \<Longrightarrow>
          operator_expr (InfixExpression tok (Some left) (Literal tok) (Some right))"

text \<open>The tokens of the rendering of an operator expression.\<close>

primrec expr_tokens :: "Expression \<Rightarrow> Token list" where
  "expr_tokens (IdentifierExpr i) = [case i of Identifier tok v \<Rightarrow> tok]"
| "expr_tokens (IntegerLiteral tok v) = [tok]"
| "expr_tokens (Boolean tok v) = [tok]"
| "expr_tokens (PrefixExpression tok operator right) =
     \<lparr>Type = LPAREN, Literal = ''(''\<rparr> # tok
       # (case map_option expr_tokens right of None \<Rightarrow> [] | Some ts \<Rightarrow> ts)
       @ [\<lparr>Type = RPAREN, Literal = '')''\<rparr>]"
| "expr_tokens (InfixExpression tok left operator right) =
     \<lparr>Type = LPAREN, Literal = ''(''\<rparr>
       # (case map_option expr_tokens left of None \<Rightarrow> [] | Some ts \<Rightarrow> ts)
       @ tok # (case map_option expr_tokens right of None \<Rightarrow> [] | Some ts \<Rightarrow> ts)
       @ [\<lparr>Type = RPAREN, Literal = '')''\<rparr>]"
| "expr_tokens (IfExpression tok condition consequence alternative) = []"
| "expr_tokens (FunctionLiteral tok parameters body) = []"
| "expr_tokens (CallExpression tok function arguments) = []"

text \<open>
  \<open>parses_as H e\<close>: with fuel above \<open>H\<close>, \<open>parseExpression\<close> on the tokens of the rendering
  of \<open>e\<close> comes to its loop with \<open>e\<close> as the left operand and those tokens consumed.
\<close>

definition parses_as :: "nat \<Rightarrow> Expression \<Rightarrow> bool" where
  "parses_as H e \<longleftrightarrow>
     (\<forall>m\<ge>H. \<forall>prec p rest. pending p = expr_tokens e @ rest \<longrightarrow>
        (\<exists>p'. pending p' = rest \<and> errors p' = errors p
           \<and> parseExpression (Suc m) prec p = infixLoop (parseExpression m) m prec (Some e) p'))"

subsection \<open>The grouping that the specification prescribes\<close>

text \<open>
  The next definitions follow the specification, not the code. Its precedence table,
  from low to high: equality (\<open>==\<close>, \<open>!=\<close>), relational (\<open><\<close>, \<open>>\<close>), additive (\<open>+\<close>, \<open>-\<close>),
  multiplicative (\<open>*\<close>, \<open>/\<close>), prefix. \<open>spec_strength\<close> numbers the four infix levels from 1
  to 4; prefix is 5, and \<open>operand_strength\<close>, one more, is the strength of what stands as
  an operand of any operator: an atom, a prefix expression, a parenthesized expression.
\<close>

definition spec_strength :: "Type \<Rightarrow> nat" where
  "spec_strength t =
     (if t = EQ \<or> t = NOTEQ then 1
      else if t = LT \<or> t = GT then 2
      else if t = PLUS \<or> t = MINUS then 3
      else if t = ASTERISK \<or> t = SLASH then 4
      else 0)"

definition operand_strength :: nat where "operand_strength = 6"

text \<open>
  \<open>spec_reading ts e s\<close>: the tokens \<open>ts\<close> are an expression that groups as the syntax tree
  \<open>e\<close>, and \<open>s\<close> is the strength of its outermost operator that no parentheses enclose. An
  infix operator binds a left operand at least as strong as itself (left
  associativity) and a right operand strictly stronger; a prefix operator binds an
  operand only; parentheses turn any expression into an operand.
\<close>

inductive spec_reading :: "Token list \<Rightarrow> Expression \<Rightarrow> nat \<Rightarrow> bool" where
  operand: "atom t e \<Longrightarrow> spec_reading [t] e operand_strength"
| unary: "tok \<in> set prefix_operators \<Longrightarrow> spec_reading ts right operand_strength \<Longrightarrow>
     spec_reading (tok # ts) (PrefixExpression tok (Literal tok) (Some right)) operand_strength"
| group: "spec_reading ts e s \<Longrightarrow> spec_reading (lparen # ts @ [rparen]) e operand_strength"
| binary: "tok \<in> set infix_operators \<Longrightarrow> spec_reading ts1 left s1 \<Longrightarrow> spec_reading ts2 right s2 \<Longrightarrow>
     spec_strength (Type tok) \<le> s1 \<Longrightarrow> spec_strength (Type tok) < s2 \<Longrightarrow>
     spec_reading (ts1 @ tok # ts2) (InfixExpression tok (Some left) (Literal tok) (Some right))
       (spec_strength (Type tok))"

text \<open>
  The statement terminator, and the source text of a token sequence: the literals
  separated by single spaces, ended by \<open>;\<close>.
\<close>

definition semicolon :: Token where "semicolon = \<lparr>Type = SEMICOLON, Literal = '';''\<rparr>"

definition source :: "Token list \<Rightarrow> string" where
  "source ts = Join (map Literal ts) '' '' @ '';''"

text \<open>What \<open>getCurrentPrecedence\<close> returns for a parser that has the tokens \<open>rest\<close> to read.\<close>

definition next_precedence :: "Token list \<Rightarrow> int" where
  "next_precedence rest =
     (case rest of
        [] \<Rightarrow> LOWEST
      | t # ts \<Rightarrow> (case precedences (Type t) of None \<Rightarrow> LOWEST | Some precedence \<Rightarrow> precedence))"

text \<open>
  \<open>reads_as H c ts s e\<close>: with fuel above \<open>H\<close>, called with a precedence below the one of
  strength \<open>s\<close> on the tokens \<open>ts\<close>, followed by a token that binds no stronger, \<open>parseExpression\<close>
  comes to its loop with \<open>e\<close> as the left operand, \<open>ts\<close> consumed and \<open>c\<close> iterations done.
\<close>

definition reads_as :: "nat \<Rightarrow> nat \<Rightarrow> Token list \<Rightarrow> nat \<Rightarrow> Expression \<Rightarrow> bool" where
  "reads_as H c ts s e \<longleftrightarrow>
     (\<forall>m\<ge>H. \<forall>prec p rest.
        prec < int s + 1 \<longrightarrow> pending p = ts @ rest \<longrightarrow> next_precedence rest \<le> int s + 1 \<longrightarrow>
        (\<exists>p'. pending p' = rest \<and> errors p' = errors p
           \<and> parseExpression (Suc m) prec p
               = infixLoop (parseExpression m) (m - c) prec (Some e) p'))"

definition operator_token :: "Token \<Rightarrow> bool" where
  "operator_token t \<longleftrightarrow>
     (\<exists>e. atom t e) \<or> t \<in> set prefix_operators \<or> t \<in> set infix_operators
     \<or> t = lparen \<or> t = rparen"

section \<open>Evaluating the lexer and the parser on a source text\<close>

lemma bind_weak_cong: "m = m' \<Longrightarrow> bind m f = bind m' f"
  by simp

lemma parseExpression_numeral:
  "parseExpression (numeral k) precedence p =
     parseExpressionBody (parseExpression (pred_numeral k)) (parseStatement (pred_numeral k))
       (pred_numeral k) precedence p"
  by (simp add: numeral_eq_Suc parseExpression_Suc)

lemma parseStatement_numeral:
  "parseStatement (numeral k) p =
     parseStatementBody (parseExpression (pred_numeral k)) (parseStatement (pred_numeral k))
       (pred_numeral k) p"
  by (simp add: numeral_eq_Suc parseStatement_Suc)

lemma infixLoop_numeral:
  "infixLoop pe (numeral k) precedence left p =
     (if Type (currentToken p) \<noteq> SEMICOLON \<and> precedence < getCurrentPrecedence p
      then case infixParsers (Type (currentToken p)) of
             None \<Rightarrow> Done left p
           | Some ParseInfixExpression \<Rightarrow>
               bind (parseInfixExpression pe left p)
                 (\<lambda>left1 p1. infixLoop pe (pred_numeral k) precedence left1 p1)
      else Done left p)"
  by (simp add: numeral_eq_Suc)

lemma blockLoop_numeral:
  "blockLoop ps (numeral k) stmts p =
     (if Type (currentToken p) \<noteq> EOF \<and> Type (currentToken p) \<noteq> RBRACE
      then bind (ps p) (\<lambda>s p1. blockLoop ps (pred_numeral k) (stmts @ [s]) p1)
      else Done stmts p)"
  by (simp add: numeral_eq_Suc)

lemma programLoop_numeral:
  "programLoop ps (numeral k) stmts p =
     (if Type (currentToken p) \<noteq> EOF
      then bind (ps p) (\<lambda>s p1. programLoop ps (pred_numeral k) (stmts @ [s]) p1)
      else Done stmts p)"
  by (simp add: numeral_eq_Suc)

lemmas lexer_eval =
  NextToken_def Lexer_New_def consumeNextChar_def consumeWhitespaces.simps
  consumeDigits.simps consumeCharacters.simps lexlets_def eofLexlet_def twoCharLexlet_def
  singleCharLexlet_def literalsLexlet_def identifiersAndKeywordsLexlet_def
  NUL_def isWhitespace_def isDigit_def isCharacter_def less_eq_char_def peekNextChar_def
  string_of_byte_def GetTwoCharToken_def GetSingleCharToken_def GetTokenType_def
  twoCharTokens_def singleCharTokens_def keywordTable_def slice_def zeroToken_def Let_def

lemmas parser_eval =
  parse_source_def ParseProgram_def Parser_New_def consumeNextToken_def consumeToken_def
  addError_def getCurrentPrecedence_def precedences_def parselets_def prefixParsers_def
  infixParsers_def parseIdentifier_def parseIntegerLiteral_def parseBooleanLiteral_def
  parsePrefixOperator_def parseGroupedExpression_def parseInfixExpression_def
  blockStatementParselet_def parseIfExpression_def parseFunctionExpression_def
  parseExpressionBody_def letStatementParselet_def returnStatementParselet_def
  expressionStatementParselet_def parseStatementBody_def
  parseExpression_numeral parseStatement_numeral infixLoop_numeral blockLoop_numeral
  programLoop_numeral parseParameters.simps
  LOWEST_def EQUALS_def LESSGREATER_def SUM'_def PRODUCT_def PREFIX_def CALL_def
  ParseInt_def Sprint_Token_def Quote_def

lemmas render_eval =
  Program_String_def write_all_def on_interface_def diagnostics_def rendered_def
  expressions_def Errors_def

section \<open>The lexer at the end of the input\<close>

lemma lexer_inv_New: "lexer_inv (Lexer_New s)"
  by (auto simp: lexer_inv_def Lexer_New_def consumeNextChar_def Let_def)

lemma lexer_inv_consumeNextChar:
  "lexer_inv l \<Longrightarrow> lexer_inv (consumeNextChar l) \<and> position l \<le> position (consumeNextChar l)
     \<and> input (consumeNextChar l) = input l"
  by (auto simp: lexer_inv_def consumeNextChar_def Let_def min_def)

lemma lexer_inv_consumeWhitespaces:
  "lexer_inv l \<Longrightarrow> lexer_inv (consumeWhitespaces l)"
proof (induction l rule: consumeWhitespaces.induct)
  case (1 l)
  then show ?case
    using lexer_inv_consumeNextChar [of l]
    by (subst consumeWhitespaces.simps) auto
qed

lemma lexer_inv_consumeDigits:
  "lexer_inv l \<Longrightarrow> lexer_inv (consumeDigits l) \<and> position l \<le> position (consumeDigits l)"
proof (induction l rule: consumeDigits.induct)
  case (1 l)
  show ?case
  proof (cases "isDigit (ch l)")
    case True
    then show ?thesis
      using 1 lexer_inv_consumeNextChar [of l]
      by (subst (1 2) consumeDigits.simps) fastforce
  next
    case False
    then show ?thesis using "1.prems" by (subst (1 2) consumeDigits.simps) simp
  qed
qed

lemma lexer_inv_consumeCharacters:
  "lexer_inv l \<Longrightarrow> lexer_inv (consumeCharacters l) \<and> position l \<le> position (consumeCharacters l)"
proof (induction l rule: consumeCharacters.induct)
  case (1 l)
  show ?case
  proof (cases "isCharacter (ch l)")
    case True
    then show ?thesis
      using 1 lexer_inv_consumeNextChar [of l]
      by (subst (1 2) consumeCharacters.simps) fastforce
  next
    case False
    then show ?thesis using "1.prems" by (subst (1 2) consumeCharacters.simps) simp
  qed
qed

lemma lexer_inv_tryLexlets:
  assumes "lexer_inv l" and "tryLexlets lexlets l = (tok, l')"
  shows "lexer_inv l'"
  using assms lexer_inv_consumeNextChar [of l]
    lexer_inv_consumeNextChar [of "consumeNextChar l"]
    lexer_inv_consumeDigits [of l] lexer_inv_consumeCharacters [of l]
  by (auto simp: lexlets_def eofLexlet_def twoCharLexlet_def singleCharLexlet_def
      literalsLexlet_def identifiersAndKeywordsLexlet_def Let_def split: if_splits)

lemma lexer_inv_NextToken:
  "lexer_inv l \<Longrightarrow> NextToken l = (tok, l') \<Longrightarrow> lexer_inv l'"
  using lexer_inv_tryLexlets [of "consumeWhitespaces l" tok l'] lexer_inv_consumeWhitespaces [of l]
  by (simp add: NextToken_def)

lemma lexer_reachable_inv: "lexer_reachable l \<Longrightarrow> lexer_inv l"
  by (induction rule: lexer_reachable.induct) (auto intro: lexer_inv_New lexer_inv_NextToken)

lemma NextToken_at_sentinel:
  "ch l = NUL \<Longrightarrow> NextToken l = (\<lparr>Type = EOF, Literal = []\<rparr>, l)"
  by (simp add: NextToken_def consumeWhitespaces.simps lexlets_def eofLexlet_def)

text \<open>
  C5. Once the cursor of a lexer (any state reached from \<open>lexer.New\<close> by \<open>NextToken\<close> calls)
  is past the end of the input, \<open>NextToken\<close> returns the \<open>EOF\<close> token with empty literal
  and leaves the lexer as it is; so every later call does the same.
\<close>

theorem NextToken_past_end:
  assumes "lexer_reachable l" and "length (input l) \<le> position l"
  shows "NextToken l = (\<lparr>Type = EOF, Literal = []\<rparr>, l)"
proof -
  have "lexer_inv l" using assms(1) by (rule lexer_reachable_inv)
  then have "ch l = NUL" using assms(2) by (simp add: lexer_inv_def)
  then show ?thesis by (rule NextToken_at_sentinel)
qed

theorem NextToken_past_end_witness:
  "lexer_reachable (snd (NextToken (Lexer_New ''ab'')))
   \<and> length (input (snd (NextToken (Lexer_New ''ab'')))) \<le> position (snd (NextToken (Lexer_New ''ab'')))
   \<and> NextToken (snd (NextToken (Lexer_New ''ab'')))
       = (\<lparr>Type = EOF, Literal = []\<rparr>, snd (NextToken (Lexer_New ''ab'')))"
proof -
  have r: "lexer_reachable (snd (NextToken (Lexer_New ''ab'')))"
    by (rule lexer_reachable.step [OF lexer_reachable.start, of _ "fst (NextToken (Lexer_New ''ab''))"])
      simp
  have e: "length (input (snd (NextToken (Lexer_New ''ab'')))) \<le> position (snd (NextToken (Lexer_New ''ab'')))"
    by (simp add: lexer_eval cong: let_weak_cong)
  show ?thesis using NextToken_past_end [OF r e] r e by simp
qed

section \<open>Consuming an expected token\<close>

text \<open>
  C6. When the current token is not the end marker, \<open>consumeToken(t)\<close> advances by one
  token whether or not the current token's type is \<open>t\<close> (the next token becomes current
  and one token is read from the lexer), and the diagnostics are unchanged on a match and
  grow by the one message "Could not properly consume token: ... expected: ..." on a
  mismatch.
\<close>

theorem consumeToken_advances:
  assumes "Type (currentToken p) \<noteq> EOF"
  shows "currentToken (consumeToken t p) = nextToken p
    \<and> (nextToken (consumeToken t p), lexer (consumeToken t p)) = NextToken (lexer p)
    \<and> errors (consumeToken t p) =
        (if Type (currentToken p) = t then errors p
         else errors p @ [''Could not properly consume token: '' @ Sprint_Token (currentToken p)
                            @ '' expected: '' @ Type_text t])"
  using assms
  by (cases "NextToken (lexer p)") (auto simp: consumeToken_def consumeNextToken_def addError_def)

theorem consumeToken_advances_witness:
  "Type (currentToken (Parser_New (Lexer_New ''let 5 = x''))) \<noteq> EOF
   \<and> currentToken (consumeToken IDENT (Parser_New (Lexer_New ''let 5 = x'')))
       = \<lparr>Type = INT', Literal = ''5''\<rparr>
   \<and> errors (consumeToken IDENT (Parser_New (Lexer_New ''let 5 = x'')))
       = [''Could not properly consume token: {LET let} expected: IDENT'']
   \<and> errors (consumeToken LET (Parser_New (Lexer_New ''let 5 = x''))) = []"
proof -
  have c: "currentToken (Parser_New (Lexer_New ''let 5 = x'')) = \<lparr>Type = LET, Literal = ''let''\<rparr>"
    by (simp add: lexer_eval parser_eval cong: let_weak_cong)
  have n: "nextToken (Parser_New (Lexer_New ''let 5 = x'')) = \<lparr>Type = INT', Literal = ''5''\<rparr>"
    by (simp add: lexer_eval parser_eval cong: let_weak_cong)
  have e: "errors (Parser_New (Lexer_New ''let 5 = x'')) = []"
    by (simp add: lexer_eval parser_eval cong: let_weak_cong)
  have h: "Type (currentToken (Parser_New (Lexer_New ''let 5 = x''))) \<noteq> EOF"
    by (simp add: c)
  show ?thesis
    using consumeToken_advances [OF h, of IDENT] consumeToken_advances [OF h, of LET]
    by (simp add: c n e Sprint_Token_def)
qed

section \<open>Integer literals that do not parse\<close>

lemma parseIntegerLiteral_failure:
  assumes "ParseInt (Literal (currentToken p)) = None"
  shows "parseIntegerLiteral p =
           (None, addError (''Could not parse '' @ Quote (Literal (currentToken (consumeNextToken p)))
                              @ '' as integer'') (consumeNextToken p))"
  using assms by (simp add: parseIntegerLiteral_def Let_def)

text \<open>
  C2. On the source \<open>99999999999999999999;\<close> the integer literal does not fit 64 bits. The
  parse returns, the expression of the statement is absent and exactly one diagnostic is
  recorded; but the diagnostic quotes \<open>;\<close>, the token after the literal, because
  \<open>parseIntegerLiteral\<close> formats the message after \<open>consumeNextToken\<close>.
\<close>

theorem parseIntegerLiteral_quotes_next_token:
  "Literal (currentToken (Parser_New (Lexer_New ''99999999999999999999;''))) = ''99999999999999999999''
   \<and> ParseInt ''99999999999999999999'' = None
   \<and> expressions (parse_source 20 ''99999999999999999999;'') = Some [None]
   \<and> diagnostics (parse_source 20 ''99999999999999999999;'')
       = Some [''Could not parse '' @ [CHR 0x22] @ '';'' @ [CHR 0x22] @ '' as integer'']"
  by (simp add: lexer_eval parser_eval render_eval dquote_def escapeASCII_def backslash_def
      cong: let_weak_cong bind_weak_cong)

section \<open>Three renderings\<close>

lemma render_sum_product:
  "rendered (parse_source 20 ''1 + 2 * 3;'') = Some ''(1 + (2 * 3))''
   \<and> diagnostics (parse_source 20 ''1 + 2 * 3;'') = Some []"
  by (simp add: lexer_eval parser_eval render_eval cong: let_weak_cong bind_weak_cong)

lemma render_left_assoc:
  "rendered (parse_source 20 ''1 - 2 - 3;'') = Some ''((1 - 2) - 3)''
   \<and> diagnostics (parse_source 20 ''1 - 2 - 3;'') = Some []"
  by (simp add: lexer_eval parser_eval render_eval cong: let_weak_cong bind_weak_cong)

lemma render_prefix:
  "rendered (parse_source 20 ''-1 * 2;'') = Some ''((-1) * 2)''
   \<and> diagnostics (parse_source 20 ''-1 * 2;'') = Some []"
  by (simp add: lexer_eval parser_eval render_eval cong: let_weak_cong bind_weak_cong)

section \<open>A missing block\<close>

lemma missing_paren_is_reported:
  "rendered (parse_source 20 ''(1 + 2;'') = Some ''(1 + 2)''
   \<and> diagnostics (parse_source 20 ''(1 + 2;'')
       = Some [''Could not properly consume token: {; ;} expected: )'']"
  by (simp add: lexer_eval parser_eval render_eval cong: let_weak_cong bind_weak_cong)

text \<open>
  C4. On the source \<open>if (x) y\<close> the consequence is not a block: \<open>blockStatementParselet\<close>
  returns nil and the type assertion in \<open>parseIfExpression\<close> panics, so \<open>ParseProgram\<close>
  does not return a program.
\<close>

theorem ParseProgram_panics_on_missing_block:
  "parse_source 20 ''if (x) y'' = Panic"
  by (simp add: lexer_eval parser_eval cong: let_weak_cong bind_weak_cong)

section \<open>The parameter list of a function literal\<close>

lemma errors_consumeNextToken [simp]: "errors (consumeNextToken p) = errors p"
  by (cases "NextToken (lexer p)") (simp add: consumeNextToken_def)

lemma errors_consumeToken_match:
  "Type (currentToken p) = t \<Longrightarrow> errors (consumeToken t p) = errors p"
  by (simp add: consumeToken_def)

lemma parseParameters_step:
  assumes "Type (currentToken p) \<noteq> EOF" and "Type (currentToken p) \<noteq> RPAREN"
  shows "parseParameters params p =
           parseParameters (params @ [Identifier (currentToken p) (Literal (currentToken p))])
             (if Type (currentToken (consumeNextToken p)) = COMMA
              then consumeToken COMMA (consumeNextToken p) else consumeNextToken p)"
  using assms by (subst parseParameters.simps) (simp add: parseIdentifier_def)

lemma parseParameters_stop:
  "Type (currentToken p) = EOF \<or> Type (currentToken p) = RPAREN \<Longrightarrow>
   parseParameters params p = (params, p)"
  by (subst parseParameters.simps) auto

lemma parseParameters_errors: "errors (snd (parseParameters params p)) = errors p"
proof (induction params p rule: parseParameters.induct)
  case (1 params p)
  show ?case
  proof (cases "Type (currentToken p) \<noteq> EOF \<and> Type (currentToken p) \<noteq> RPAREN")
    case True
    then show ?thesis
      using "1.IH" [of "Identifier (currentToken p) (Literal (currentToken p))" "consumeNextToken p"]
      by (simp add: parseParameters_step parseIdentifier_def errors_consumeToken_match)
  next
    case False
    then show ?thesis by (simp add: parseParameters_stop)
  qed
qed

lemma parseParameters_prefix: "\<exists>rest. fst (parseParameters params p) = params @ rest"
proof (induction params p rule: parseParameters.induct)
  case (1 params p)
  show ?case
  proof (cases "Type (currentToken p) \<noteq> EOF \<and> Type (currentToken p) \<noteq> RPAREN")
    case True
    then show ?thesis
      using "1.IH" [of "Identifier (currentToken p) (Literal (currentToken p))" "consumeNextToken p"]
      by (auto simp: parseParameters_step parseIdentifier_def)
  next
    case False
    then show ?thesis by (simp add: parseParameters_stop)
  qed
qed

text \<open>
  C10. In the parameter loop of \<open>parseFunctionExpression\<close> the current token, whatever its
  type (the loop guard only stops at \<open>)\<close> and at the end marker), becomes a parameter
  whose value is the token's literal, and the loop records no diagnostic.
\<close>

theorem parameter_of_any_kind:
  assumes "Type (currentToken p) \<noteq> EOF" and "Type (currentToken p) \<noteq> RPAREN"
  shows "(\<exists>rest. fst (parseParameters params p) =
            params @ Identifier (currentToken p) (Literal (currentToken p)) # rest)
       \<and> errors (snd (parseParameters params p)) = errors p"
proof -
  obtain rest where "fst (parseParameters params p) =
      (params @ [Identifier (currentToken p) (Literal (currentToken p))]) @ rest"
    using parseParameters_prefix parseParameters_step [OF assms] by metis
  then show ?thesis by (simp add: parseParameters_errors)
qed

lemma function_literal_int_parameter:
  "map_option (map parameter_names) (expressions (parse_source 20 ''fn(1) { x }''))
     = Some [Some [''1'']]
   \<and> diagnostics (parse_source 20 ''fn(1) { x }'') = Some []"
  by (simp add: lexer_eval parser_eval render_eval cong: let_weak_cong bind_weak_cong)

theorem parameter_of_any_kind_witness:
  "Type (currentToken (Parser_New (Lexer_New ''1) { x }''))) \<noteq> EOF
   \<and> Type (currentToken (Parser_New (Lexer_New ''1) { x }''))) \<noteq> RPAREN
   \<and> fst (parseParameters [] (Parser_New (Lexer_New ''1) { x }'')))
       = [Identifier \<lparr>Type = INT', Literal = ''1''\<rparr> ''1'']
   \<and> errors (snd (parseParameters [] (Parser_New (Lexer_New ''1) { x }'')))) = []"
proof -
  have c: "currentToken (Parser_New (Lexer_New ''1) { x }'')) = \<lparr>Type = INT', Literal = ''1''\<rparr>"
    by (simp add: lexer_eval parser_eval cong: let_weak_cong)
  have e: "errors (Parser_New (Lexer_New ''1) { x }'')) = []"
    by (simp add: lexer_eval parser_eval cong: let_weak_cong)
  have f: "fst (parseParameters [] (Parser_New (Lexer_New ''1) { x }'')))
       = [Identifier \<lparr>Type = INT', Literal = ''1''\<rparr> ''1'']"
    by (simp add: lexer_eval parser_eval cong: let_weak_cong)
  have h1: "Type (currentToken (Parser_New (Lexer_New ''1) { x }''))) \<noteq> EOF" by (simp add: c)
  have h2: "Type (currentToken (Parser_New (Lexer_New ''1) { x }''))) \<noteq> RPAREN" by (simp add: c)
  show ?thesis
    using parameter_of_any_kind [OF h1 h2, of "[]"] h1 h2 f e by simp
qed

section \<open>A stray comma before the closing parenthesis\<close>

text \<open>
  C8 fails for the empty parameter list: in \<open>fn(,) { x }\<close> the comma stands in parameter
  position and becomes a parameter named \<open>,\<close>, where \<open>fn() { x }\<close> has none.
\<close>

theorem stray_comma_counterexample:
  "map_option (map parameter_names) (expressions (parse_source 20 ''fn() { x }''))
     = Some [Some []]
   \<and> map_option (map parameter_names) (expressions (parse_source 20 ''fn(,) { x }''))
     = Some [Some ['','']]
   \<and> diagnostics (parse_source 20 ''fn(,) { x }'') = Some []"
  by (simp add: lexer_eval parser_eval render_eval cong: let_weak_cong bind_weak_cong)

lemma function_literal_two_parameters:
  "map_option (map parameter_names) (expressions (parse_source 20 ''fn(x, y) { x + y; }''))
     = Some [Some [''x'', ''y'']]
   \<and> map_option (map (map_option (map isExpressionStatement) \<circ> body_statements))
       (expressions (parse_source 20 ''fn(x, y) { x + y; }'')) = Some [Some [True]]
   \<and> diagnostics (parse_source 20 ''fn(x, y) { x + y; }'') = Some []"
  by (simp add: lexer_eval parser_eval render_eval cong: let_weak_cong bind_weak_cong)

lemma function_literal_stray_comma:
  "map_option (map parameter_names) (expressions (parse_source 20 ''fn(x, y,) { x }''))
     = Some [Some [''x'', ''y'']]
   \<and> diagnostics (parse_source 20 ''fn(x, y,) { x }'') = Some []"
  by (simp add: lexer_eval parser_eval render_eval cong: let_weak_cong bind_weak_cong)

lemma consumeNextToken_step:
  "Type (currentToken p) \<noteq> EOF \<Longrightarrow> NextToken (lexer p) = (tok, l') \<Longrightarrow>
   consumeNextToken p = p\<lparr>currentToken := nextToken p, nextToken := tok, lexer := l'\<rparr>"
  by (simp add: consumeNextToken_def)

lemma last_parameter:
  assumes "Type (currentToken p) \<noteq> EOF" and "Type (currentToken p) \<noteq> RPAREN"
    and "Type (nextToken p) = RPAREN
         \<or> (Type (nextToken p) = COMMA \<and> Type (fst (NextToken (lexer p))) = RPAREN)"
  shows "fst (parseParameters params p) =
           params @ [Identifier (currentToken p) (Literal (currentToken p))]
       \<and> errors (snd (parseParameters params p)) = errors p
       \<and> Type (currentToken (snd (parseParameters params p))) = RPAREN"
proof -
  obtain tok l' where nt: "NextToken (lexer p) = (tok, l')" by (cases "NextToken (lexer p)")
  define q where "q = p\<lparr>currentToken := nextToken p, nextToken := tok, lexer := l'\<rparr>"
  have p1: "consumeNextToken p = q"
    unfolding q_def using assms(1) nt by (rule consumeNextToken_step)
  define r where "r = (if Type (currentToken q) = COMMA then consumeToken COMMA q else q)"
  have "Type (currentToken r) = RPAREN"
  proof (cases "Type (nextToken p) = RPAREN")
    case True
    then show ?thesis by (simp add: r_def q_def)
  next
    case False
    then have c: "Type (currentToken q) = COMMA" and t: "Type tok = RPAREN"
      using assms(3) nt by (auto simp: q_def)
    obtain tok2 l2 where n2: "NextToken (lexer q) = (tok2, l2)" by (cases "NextToken (lexer q)")
    have "consumeToken COMMA q = consumeNextToken q" using c by (simp add: consumeToken_def)
    also have "\<dots> = q\<lparr>currentToken := nextToken q, nextToken := tok2, lexer := l2\<rparr>"
      using c n2 by (intro consumeNextToken_step) auto
    finally show ?thesis using c t by (simp add: r_def q_def)
  qed
  then have "parseParameters (params @ [Identifier (currentToken p) (Literal (currentToken p))]) r
      = (params @ [Identifier (currentToken p) (Literal (currentToken p))], r)"
    by (simp add: parseParameters_stop)
  moreover have "parseParameters params p =
      parseParameters (params @ [Identifier (currentToken p) (Literal (currentToken p))]) r"
    unfolding r_def p1 [symmetric] by (rule parseParameters_step [OF assms(1,2)])
  ultimately have "parseParameters params p =
      (params @ [Identifier (currentToken p) (Literal (currentToken p))], r)"
    by (rule trans [rotated])
  moreover have "Type (currentToken r) = RPAREN" by fact
  ultimately show ?thesis using parseParameters_errors [of params p] by simp
qed

text \<open>
  C8 (as amended). \<open>fn(x, y) { x + y; }\<close> parses into a function literal with the two
  parameters \<open>x\<close> and \<open>y\<close> and a body of one expression statement. In the parameter
  loop, a parameter followed by \<open>)\<close> and a parameter followed by a comma and then \<open>)\<close>
  give the same result: the parameters so far and this one, no diagnostic, and the parser
  at the \<open>)\<close>; so \<open>fn(x, y,) { x }\<close> has the parameters \<open>x\<close> and \<open>y\<close> and no diagnostic.
  (A comma with no parameter before it is itself taken as a parameter.)
\<close>

theorem stray_comma_after_parameter:
  assumes "Type (currentToken p) \<noteq> EOF" and "Type (currentToken p) \<noteq> RPAREN"
    and "Type (nextToken p) = RPAREN
         \<or> (Type (nextToken p) = COMMA \<and> Type (fst (NextToken (lexer p))) = RPAREN)"
  shows "fst (parseParameters params p) =
           params @ [Identifier (currentToken p) (Literal (currentToken p))]
       \<and> errors (snd (parseParameters params p)) = errors p
       \<and> Type (currentToken (snd (parseParameters params p))) = RPAREN
       \<and> map_option (map parameter_names) (expressions (parse_source 20 ''fn(x, y) { x + y; }''))
           = Some [Some [''x'', ''y'']]
       \<and> map_option (map (map_option (map isExpressionStatement) \<circ> body_statements))
           (expressions (parse_source 20 ''fn(x, y) { x + y; }'')) = Some [Some [True]]
       \<and> map_option (map parameter_names) (expressions (parse_source 20 ''fn(x, y,) { x }''))
           = Some [Some [''x'', ''y'']]
       \<and> diagnostics (parse_source 20 ''fn(x, y,) { x }'') = Some []"
  using last_parameter [OF assms, of params] function_literal_two_parameters
    function_literal_stray_comma
  by blast

theorem stray_comma_after_parameter_witness:
  "Type (currentToken (Parser_New (Lexer_New ''y,) { x }''))) \<noteq> EOF
   \<and> Type (currentToken (Parser_New (Lexer_New ''y,) { x }''))) \<noteq> RPAREN
   \<and> Type (nextToken (Parser_New (Lexer_New ''y,) { x }''))) = COMMA
   \<and> Type (fst (NextToken (lexer (Parser_New (Lexer_New ''y,) { x }''))))) = RPAREN
   \<and> fst (parseParameters [Identifier \<lparr>Type = IDENT, Literal = ''x''\<rparr> ''x'']
            (Parser_New (Lexer_New ''y,) { x }'')))
       = [Identifier \<lparr>Type = IDENT, Literal = ''x''\<rparr> ''x'',
          Identifier \<lparr>Type = IDENT, Literal = ''y''\<rparr> ''y'']
   \<and> errors (snd (parseParameters [Identifier \<lparr>Type = IDENT, Literal = ''x''\<rparr> ''x'']
                     (Parser_New (Lexer_New ''y,) { x }'')))) = []"
proof -
  have c: "currentToken (Parser_New (Lexer_New ''y,) { x }'')) = \<lparr>Type = IDENT, Literal = ''y''\<rparr>"
    by (simp add: lexer_eval parser_eval cong: let_weak_cong)
  have n: "nextToken (Parser_New (Lexer_New ''y,) { x }'')) = \<lparr>Type = COMMA, Literal = '',''\<rparr>"
    by (simp add: lexer_eval parser_eval cong: let_weak_cong)
  have t: "fst (NextToken (lexer (Parser_New (Lexer_New ''y,) { x }''))))
      = \<lparr>Type = RPAREN, Literal = '')''\<rparr>"
    by (simp add: lexer_eval parser_eval cong: let_weak_cong)
  have e: "errors (Parser_New (Lexer_New ''y,) { x }'')) = []"
    by (simp add: lexer_eval parser_eval cong: let_weak_cong)
  have h1: "Type (currentToken (Parser_New (Lexer_New ''y,) { x }''))) \<noteq> EOF" by (simp add: c)
  have h2: "Type (currentToken (Parser_New (Lexer_New ''y,) { x }''))) \<noteq> RPAREN" by (simp add: c)
  have h3: "Type (nextToken (Parser_New (Lexer_New ''y,) { x }''))) = RPAREN
         \<or> (Type (nextToken (Parser_New (Lexer_New ''y,) { x }''))) = COMMA
            \<and> Type (fst (NextToken (lexer (Parser_New (Lexer_New ''y,) { x }''))))) = RPAREN)"
    by (simp add: n t)
  show ?thesis
    using stray_comma_after_parameter [OF h1 h2 h3,
        of "[Identifier \<lparr>Type = IDENT, Literal = ''x''\<rparr> ''x'']"]
    by (simp add: c n t e)
qed

section \<open>Every parse function consumes tokens\<close>

lemma bind_Done:
  "bind m f = Done b q \<longleftrightarrow> (\<exists>a p. m = Done a p \<and> f a p = Done b q)"
  by (cases m) auto

lemma bind_live:
  "bind m f \<noteq> OutOfFuel \<longleftrightarrow> m \<noteq> OutOfFuel \<and> (\<forall>a p. m = Done a p \<longrightarrow> f a p \<noteq> OutOfFuel)"
  by (cases m) auto

lemma tokens_left_pos: "Type (currentToken p) \<noteq> EOF \<Longrightarrow> 0 < tokens_left p"
  by (simp add: tokens_left_def)

lemma tokens_left_EOF: "Type (currentToken p) = EOF \<Longrightarrow> tokens_left p = 0"
  by (simp add: tokens_left_def)

lemma consumeNextToken_dec: "tokens_left (consumeNextToken p) \<le> tokens_left p - 1"
  using consumeNextToken_left [of p] consumeNextToken_EOF [of p] tokens_left_EOF [of p]
  by (cases "Type (currentToken p) = EOF") auto

lemma consumeToken_dec: "tokens_left (consumeToken t p) \<le> tokens_left p - 1"
  using consumeToken_left [of p t] consumeToken_left_le [of t p] tokens_left_EOF [of p]
  by (cases "Type (currentToken p) = EOF") auto

lemma advances_no_more: "advances p r \<Longrightarrow> no_more p r"
  by (fastforce simp: advances_def no_more_def)

lemma consumes_eD:
  "consumes_e pe \<Longrightarrow> pe precedence q = Done e p' \<Longrightarrow> tokens_left p' \<le> tokens_left q - 1"
  by (simp add: consumes_e_def advances_def)

lemma consumes_sD:
  "consumes_s ps \<Longrightarrow> ps q = Done s p' \<Longrightarrow> tokens_left p' \<le> tokens_left q - 1"
  by (simp add: consumes_s_def advances_def)

lemma parsePrefixOperator_advances:
  assumes "consumes_e pe"
  shows "advances p (parsePrefixOperator pe p)"
  unfolding advances_def
proof (intro allI impI)
  fix a p' assume "parsePrefixOperator pe p = Done a p'"
  then obtain right where "pe PREFIX (consumeNextToken p) = Done right p'"
    by (auto simp: parsePrefixOperator_def Let_def bind_Done)
  then have "tokens_left p' \<le> tokens_left (consumeNextToken p) - 1"
    by (rule consumes_eD [OF assms])
  then show "tokens_left p' \<le> tokens_left p - 1"
    using consumeNextToken_dec [of p] by simp
qed

lemma parseGroupedExpression_advances:
  assumes "consumes_e pe"
  shows "advances p (parseGroupedExpression pe p)"
  unfolding advances_def
proof (intro allI impI)
  fix a p' assume "parseGroupedExpression pe p = Done a p'"
  then obtain p2 where e: "pe LOWEST (consumeToken LPAREN p) = Done a p2"
    and p': "p' = consumeToken RPAREN p2"
    by (auto simp: parseGroupedExpression_def Let_def bind_Done)
  have "tokens_left p2 \<le> tokens_left (consumeToken LPAREN p) - 1"
    using e by (rule consumes_eD [OF assms])
  then show "tokens_left p' \<le> tokens_left p - 1"
    using consumeToken_dec [of LPAREN p] consumeToken_dec [of RPAREN p2] p' by simp
qed

lemma parseInfixExpression_advances:
  assumes "consumes_e pe"
  shows "advances p (parseInfixExpression pe left p)"
  unfolding advances_def
proof (intro allI impI)
  fix a p' assume "parseInfixExpression pe left p = Done a p'"
  then obtain right where "pe (getCurrentPrecedence p) (consumeNextToken p) = Done right p'"
    by (auto simp: parseInfixExpression_def Let_def bind_Done)
  then have "tokens_left p' \<le> tokens_left (consumeNextToken p) - 1"
    by (rule consumes_eD [OF assms])
  then show "tokens_left p' \<le> tokens_left p - 1"
    using consumeNextToken_dec [of p] by simp
qed

lemma infixLoop_no_more:
  assumes "consumes_e pe"
  shows "infixLoop pe k precedence left p = Done a p' \<Longrightarrow> tokens_left p' \<le> tokens_left p"
proof (induction k arbitrary: left p)
  case 0
  then show ?case by simp
next
  case (Suc k)
  show ?case
  proof (cases "Type (currentToken p) \<noteq> SEMICOLON \<and> precedence < getCurrentPrecedence p
                \<and> infixParsers (Type (currentToken p)) \<noteq> None")
    case True
    then obtain left1 p1 where i: "parseInfixExpression pe left p = Done left1 p1"
      and l: "infixLoop pe k precedence left1 p1 = Done a p'"
      using Suc.prems by (auto simp: bind_Done split: infixParseFn.splits)
    have "tokens_left p1 \<le> tokens_left p - 1"
      using parseInfixExpression_advances [OF assms, of p left] i by (simp add: advances_def)
    moreover have "tokens_left p' \<le> tokens_left p1" using l by (rule Suc.IH)
    ultimately show ?thesis by simp
  next
    case False
    then have "p' = p" using Suc.prems by (auto split: if_splits)
    then show ?thesis by simp
  qed
qed

lemma blockLoop_no_more:
  assumes "consumes_s ps"
  shows "blockLoop ps k stmts p = Done a p' \<Longrightarrow> tokens_left p' \<le> tokens_left p"
proof (induction k arbitrary: stmts p)
  case 0
  then show ?case by simp
next
  case (Suc k)
  show ?case
  proof (cases "Type (currentToken p) \<noteq> EOF \<and> Type (currentToken p) \<noteq> RBRACE")
    case True
    then obtain s p1 where i: "ps p = Done s p1"
      and l: "blockLoop ps k (stmts @ [s]) p1 = Done a p'"
      using Suc.prems by (auto simp: bind_Done)
    have "tokens_left p1 \<le> tokens_left p - 1" using i by (rule consumes_sD [OF assms])
    moreover have "tokens_left p' \<le> tokens_left p1" using l by (rule Suc.IH)
    ultimately show ?thesis by simp
  next
    case False
    then have "p' = p" using Suc.prems by (auto split: if_splits)
    then show ?thesis by simp
  qed
qed

lemma blockStatementParselet_no_more:
  assumes "consumes_s ps" and "blockStatementParselet ps k p = Done a p'"
  shows "tokens_left p' \<le> tokens_left p"
    and "Type (currentToken p) = LBRACE \<Longrightarrow> tokens_left p' \<le> tokens_left p - 1"
proof -
  have "tokens_left p' \<le> tokens_left p \<and> (Type (currentToken p) = LBRACE \<longrightarrow> tokens_left p' \<le> tokens_left p - 1)"
  proof (cases "Type (currentToken p) = LBRACE")
    case True
    then obtain stmts p2 where l: "blockLoop ps k [] (consumeToken LBRACE p) = Done stmts p2"
      and p': "p' = consumeToken RBRACE p2"
      using assms(2) by (auto simp: blockStatementParselet_def Let_def bind_Done)
    have "tokens_left p2 \<le> tokens_left (consumeToken LBRACE p)"
      using l by (rule blockLoop_no_more [OF assms(1)])
    then show ?thesis
      using consumeToken_dec [of LBRACE p] consumeToken_dec [of RBRACE p2] p' by auto
  next
    case False
    then show ?thesis using assms(2) by (simp add: blockStatementParselet_def)
  qed
  then show "tokens_left p' \<le> tokens_left p"
    and "Type (currentToken p) = LBRACE \<Longrightarrow> tokens_left p' \<le> tokens_left p - 1" by auto
qed

lemma parseParameters_no_more: "tokens_left (snd (parseParameters params p)) \<le> tokens_left p"
proof (induction params p rule: parseParameters.induct)
  case (1 params p)
  show ?case
  proof (cases "Type (currentToken p) \<noteq> EOF \<and> Type (currentToken p) \<noteq> RPAREN")
    case True
    let ?q = "consumeNextToken p"
    let ?r = "if Type (currentToken ?q) = COMMA then consumeToken COMMA ?q else ?q"
    have "tokens_left (snd (parseParameters (params @ [Identifier (currentToken p) (Literal (currentToken p))]) ?r))
        \<le> tokens_left ?r"
      using "1.IH" [of "Identifier (currentToken p) (Literal (currentToken p))" ?q] True
      by (simp add: parseIdentifier_def)
    moreover have "tokens_left ?r \<le> tokens_left p"
      using consumeNextToken_dec [of p] consumeToken_dec [of COMMA ?q] by auto
    ultimately show ?thesis using True by (simp add: parseParameters_step)
  next
    case False
    then show ?thesis by (simp add: parseParameters_stop)
  qed
qed

lemma parseIfExpression_advances:
  assumes "consumes_e pe" and "consumes_s ps"
  shows "advances p (parseIfExpression pe ps k p)"
  unfolding advances_def
proof (intro allI impI)
  fix a p' assume r: "parseIfExpression pe ps k p = Done a p'"
  let ?p2 = "consumeToken LPAREN (consumeToken IF p)"
  from r obtain condition p3 s p4 where
    c: "pe LOWEST ?p2 = Done condition p3"
    and b: "blockStatementParselet ps k (consumeToken RPAREN p3) = Done s p4"
    and rest: "(case assertBlockStatement s of
                     None \<Rightarrow> Panic
                   | Some consequence \<Rightarrow>
                       if Type (currentToken p4) \<noteq> ELSE
                       then Done (Some (IfExpression (currentToken p) condition consequence None)) p4
                       else bind (blockStatementParselet ps k (consumeToken ELSE p4))
                              (\<lambda>s1 p5.
                                 case assertBlockStatement s1 of
                                   None \<Rightarrow> Panic
                                 | Some alternative \<Rightarrow>
                                     Done (Some (IfExpression (currentToken p) condition consequence
                                                   (Some alternative))) p5)) = Done a p'"
    by (auto simp: parseIfExpression_def Let_def bind_Done)
  have 2: "tokens_left ?p2 \<le> tokens_left p - 1"
    using consumeToken_dec [of IF p] consumeToken_dec [of LPAREN "consumeToken IF p"] by simp
  have 3: "tokens_left p3 \<le> tokens_left ?p2" using consumes_eD [OF assms(1) c] by simp
  have 4: "tokens_left p4 \<le> tokens_left p3"
    using blockStatementParselet_no_more(1) [OF assms(2) b] consumeToken_dec [of RPAREN p3] by simp
  have "tokens_left p' \<le> tokens_left p4"
  proof (cases "Type (currentToken p4) \<noteq> ELSE")
    case True
    then show ?thesis using rest by (auto split: option.splits)
  next
    case False
    then obtain s1 where "blockStatementParselet ps k (consumeToken ELSE p4) = Done s1 p'"
      using rest by (auto simp: bind_Done split: option.splits)
    then show ?thesis
      using blockStatementParselet_no_more(1) [OF assms(2)] consumeToken_dec [of ELSE p4]
      by fastforce
  qed
  then show "tokens_left p' \<le> tokens_left p - 1" using 2 3 4 by simp
qed

lemma parseFunctionExpression_advances:
  assumes "consumes_s ps"
  shows "advances p (parseFunctionExpression ps k p)"
  unfolding advances_def
proof (intro allI impI)
  fix a p' assume r: "parseFunctionExpression ps k p = Done a p'"
  let ?p2 = "consumeToken LPAREN (consumeToken FUNCTION p)"
  let ?p3 = "snd (parseParameters [] ?p2)"
  from r obtain s where b: "blockStatementParselet ps k (consumeToken RPAREN ?p3) = Done s p'"
    by (auto simp: parseFunctionExpression_def Let_def bind_Done split: prod.splits option.splits)
  have 2: "tokens_left ?p2 \<le> tokens_left p - 1"
    using consumeToken_dec [of FUNCTION p] consumeToken_dec [of LPAREN "consumeToken FUNCTION p"]
    by simp
  have 3: "tokens_left ?p3 \<le> tokens_left ?p2" by (rule parseParameters_no_more)
  have "tokens_left p' \<le> tokens_left ?p3"
    using blockStatementParselet_no_more(1) [OF assms b] consumeToken_dec [of RPAREN ?p3] by simp
  then show "tokens_left p' \<le> tokens_left p - 1" using 2 3 by simp
qed

lemma prefixParser_advances:
  assumes "consumes_e pe" and "consumes_s ps"
  shows "advances p (prefixParser pe ps k fn p)"
proof (cases fn)
  case ParseIdentifier
  then show ?thesis
    using consumeNextToken_dec [of p] by (auto simp: advances_def parseIdentifier_def)
next
  case ParseIntegerLiteral
  then show ?thesis
    using consumeNextToken_dec [of p]
    by (auto simp: advances_def parseIntegerLiteral_def Let_def split: option.splits)
next
  case ParseBooleanLiteral
  then show ?thesis
    using consumeNextToken_dec [of p] by (auto simp: advances_def parseBooleanLiteral_def)
next
  case ParsePrefixOperator
  then show ?thesis using parsePrefixOperator_advances [OF assms(1)] by simp
next
  case ParseGroupedExpression
  then show ?thesis using parseGroupedExpression_advances [OF assms(1)] by simp
next
  case ParseIfExpression
  then show ?thesis using parseIfExpression_advances [OF assms] by simp
next
  case ParseFunctionExpression
  then show ?thesis using parseFunctionExpression_advances [OF assms(2)] by simp
qed

lemma parseExpressionBody_advances:
  assumes "consumes_e pe" and "consumes_s ps"
  shows "advances p (parseExpressionBody pe ps k precedence p)"
  unfolding advances_def
proof (intro allI impI)
  fix a p' assume r: "parseExpressionBody pe ps k precedence p = Done a p'"
  show "tokens_left p' \<le> tokens_left p - 1"
  proof (cases "prefixParsers (Type (currentToken p))")
    case None
    then have "p' = consumeNextToken (addError (''Unable to consume prefix: '' @ Sprint_Token (currentToken p)) p)"
      using r by (simp add: parseExpressionBody_def)
    then show ?thesis
      using consumeNextToken_dec [of "addError (''Unable to consume prefix: '' @ Sprint_Token (currentToken p)) p"]
      by simp
  next
    case (Some fn)
    then obtain left p1 where f: "prefixParser pe ps k fn p = Done left p1"
      and l: "infixLoop pe k precedence left p1 = Done a p'"
      using r by (auto simp: parseExpressionBody_def bind_Done)
    have "tokens_left p1 \<le> tokens_left p - 1"
      using prefixParser_advances [OF assms, of p k fn] f by (simp add: advances_def)
    moreover have "tokens_left p' \<le> tokens_left p1"
      using l by (rule infixLoop_no_more [OF assms(1)])
    ultimately show ?thesis by simp
  qed
qed

lemma letStatementParselet_advances:
  assumes "consumes_e pe" and "Type (currentToken p) = LET"
  shows "advances p (letStatementParselet pe p)"
  unfolding advances_def
proof (intro allI impI)
  fix a p' assume r: "letStatementParselet pe p = Done a p'"
  let ?p3 = "consumeToken ASSIGN (consumeToken IDENT (consumeToken LET p))"
  from r assms(2) obtain v p4 where e: "pe LOWEST ?p3 = Done v p4"
    and p': "p' = consumeToken SEMICOLON p4"
    by (auto simp: letStatementParselet_def Let_def bind_Done)
  have "tokens_left ?p3 \<le> tokens_left p - 1"
    using consumeToken_dec [of LET p] consumeToken_dec [of IDENT "consumeToken LET p"]
      consumeToken_dec [of ASSIGN "consumeToken IDENT (consumeToken LET p)"] by simp
  moreover have "tokens_left p4 \<le> tokens_left ?p3" using consumes_eD [OF assms(1) e] by simp
  ultimately show "tokens_left p' \<le> tokens_left p - 1"
    using consumeToken_dec [of SEMICOLON p4] p' by simp
qed

lemma returnStatementParselet_advances:
  assumes "consumes_e pe" and "Type (currentToken p) = RETURN"
  shows "advances p (returnStatementParselet pe p)"
  unfolding advances_def
proof (intro allI impI)
  fix a p' assume r: "returnStatementParselet pe p = Done a p'"
  let ?p1 = "consumeToken RETURN p"
  from r assms(2) obtain v p2 where e: "pe LOWEST ?p1 = Done v p2"
    and p': "p' = consumeToken SEMICOLON p2"
    by (auto simp: returnStatementParselet_def Let_def bind_Done)
  have "tokens_left ?p1 \<le> tokens_left p - 1" by (rule consumeToken_dec)
  moreover have "tokens_left p2 \<le> tokens_left ?p1" using consumes_eD [OF assms(1) e] by simp
  ultimately show "tokens_left p' \<le> tokens_left p - 1"
    using consumeToken_dec [of SEMICOLON p2] p' by simp
qed

lemma expressionStatementParselet_advances:
  assumes "consumes_e pe"
  shows "advances p (expressionStatementParselet pe p)"
  unfolding advances_def
proof (intro allI impI)
  fix a p' assume r: "expressionStatementParselet pe p = Done a p'"
  then obtain expr p1 where e: "pe LOWEST p = Done expr p1"
    and p': "p' = (if Type (currentToken p1) = SEMICOLON then consumeToken SEMICOLON p1 else p1)"
    by (auto simp: expressionStatementParselet_def Let_def bind_Done)
  have "tokens_left p1 \<le> tokens_left p - 1" using e by (rule consumes_eD [OF assms])
  then show "tokens_left p' \<le> tokens_left p - 1"
    using consumeToken_dec [of SEMICOLON p1] p' by auto
qed

lemma parselets_cases:
  "parselets t = Some LetStatementParselet \<longleftrightarrow> t = LET"
  "parselets t = Some ReturnStatementParselet \<longleftrightarrow> t = RETURN"
  "parselets t = Some BlockStatementParselet \<longleftrightarrow> t = LBRACE"
  by (auto simp: parselets_def)

lemma parseStatementBody_advances:
  assumes "consumes_e pe" and "consumes_s ps"
  shows "advances p (parseStatementBody pe ps k p)"
proof (cases "parselets (Type (currentToken p))")
  case None
  then show ?thesis
    using expressionStatementParselet_advances [OF assms(1), of p]
    by (simp add: parseStatementBody_def)
next
  case (Some f)
  show ?thesis
  proof (cases f)
    case LetStatementParselet
    then have "Type (currentToken p) = LET" using Some by (simp add: parselets_cases)
    then show ?thesis
      using Some LetStatementParselet letStatementParselet_advances [OF assms(1), of p]
      by (simp add: parseStatementBody_def)
  next
    case ReturnStatementParselet
    then have "Type (currentToken p) = RETURN" using Some by (simp add: parselets_cases)
    then show ?thesis
      using Some ReturnStatementParselet returnStatementParselet_advances [OF assms(1), of p]
      by (simp add: parseStatementBody_def)
  next
    case BlockStatementParselet
    then have "Type (currentToken p) = LBRACE" using Some by (simp add: parselets_cases)
    then show ?thesis
      using Some BlockStatementParselet blockStatementParselet_no_more(2) [OF assms(2), of k p]
      by (simp add: parseStatementBody_def advances_def)
  qed
qed

lemma parse_consumes: "consumes_e (parseExpression n) \<and> consumes_s (parseStatement n)"
proof (induction n)
  case 0
  then show ?case by (simp add: consumes_e_def consumes_s_def advances_def)
next
  case (Suc n)
  then show ?case
    using parseExpressionBody_advances [of "parseExpression n" "parseStatement n"]
      parseStatementBody_advances [of "parseExpression n" "parseStatement n"]
    by (simp add: consumes_e_def consumes_s_def parseExpression_Suc parseStatement_Suc)
qed

section \<open>Enough fuel\<close>

lemma live_eD: "live_e pe m \<Longrightarrow> tokens_left q < m \<Longrightarrow> pe precedence q \<noteq> OutOfFuel"
  by (simp add: live_e_def)

lemma live_sD: "live_s ps m \<Longrightarrow> tokens_left q < m \<Longrightarrow> ps q \<noteq> OutOfFuel"
  by (simp add: live_s_def)

lemma bind_OutOfFuel:
  "bind m f = OutOfFuel \<longleftrightarrow> m = OutOfFuel \<or> (\<exists>a p. m = Done a p \<and> f a p = OutOfFuel)"
  by (cases m) auto

lemma consumeNextToken_less:
  "Type (currentToken p) \<noteq> EOF \<Longrightarrow> tokens_left p \<le> m \<Longrightarrow> tokens_left (consumeNextToken p) < m"
  using consumeNextToken_left [of p] by simp

lemma consumeToken_less:
  "Type (currentToken p) \<noteq> EOF \<Longrightarrow> tokens_left p \<le> m \<Longrightarrow> tokens_left (consumeToken t p) < m"
  using consumeToken_left [of p t] by simp

lemma prefixParsers_not_EOF: "prefixParsers t = Some fn \<Longrightarrow> t \<noteq> EOF"
  by (auto simp: prefixParsers_def)

lemma infixParsers_not_EOF: "infixParsers t = Some fn \<Longrightarrow> t \<noteq> EOF"
  by (auto simp: infixParsers_def)

lemma parsePrefixOperator_live:
  assumes "live_e pe m" and "Type (currentToken p) \<noteq> EOF" and "tokens_left p \<le> m"
  shows "parsePrefixOperator pe p \<noteq> OutOfFuel"
  using live_eD [OF assms(1) consumeNextToken_less [OF assms(2,3)]]
  by (simp add: parsePrefixOperator_def Let_def bind_live)

lemma parseGroupedExpression_live:
  assumes "live_e pe m" and "Type (currentToken p) \<noteq> EOF" and "tokens_left p \<le> m"
  shows "parseGroupedExpression pe p \<noteq> OutOfFuel"
  using live_eD [OF assms(1) consumeToken_less [OF assms(2,3)]]
  by (simp add: parseGroupedExpression_def Let_def bind_live)

lemma parseInfixExpression_live:
  assumes "live_e pe m" and "Type (currentToken p) \<noteq> EOF" and "tokens_left p \<le> m"
  shows "parseInfixExpression pe left p \<noteq> OutOfFuel"
  using live_eD [OF assms(1) consumeNextToken_less [OF assms(2,3)]]
  by (simp add: parseInfixExpression_def Let_def bind_live)

lemma infixLoop_live:
  assumes "consumes_e pe" and "live_e pe m"
  shows "tokens_left p \<le> m \<Longrightarrow> tokens_left p < k \<Longrightarrow> infixLoop pe k precedence left p \<noteq> OutOfFuel"
proof (induction k arbitrary: left p)
  case 0
  then show ?case by simp
next
  case (Suc k)
  show ?case
  proof (cases "Type (currentToken p) \<noteq> SEMICOLON \<and> precedence < getCurrentPrecedence p
                \<and> infixParsers (Type (currentToken p)) \<noteq> None")
    case True
    then have ne: "Type (currentToken p) \<noteq> EOF" by (auto dest: infixParsers_not_EOF)
    have 1: "parseInfixExpression pe left p \<noteq> OutOfFuel"
      using assms(2) ne Suc.prems(1) by (rule parseInfixExpression_live)
    have 2: "infixLoop pe k precedence left1 p1 \<noteq> OutOfFuel"
      if "parseInfixExpression pe left p = Done left1 p1" for left1 p1
    proof -
      have "tokens_left p1 \<le> tokens_left p - 1"
        using parseInfixExpression_advances [OF assms(1), of p left] that
        by (simp add: advances_def)
      then have "tokens_left p1 \<le> m" and "tokens_left p1 < k"
        using Suc.prems tokens_left_pos [OF ne] by auto
      then show ?thesis by (rule Suc.IH)
    qed
    show ?thesis using True 1 2 by (auto simp: bind_OutOfFuel split: infixParseFn.splits)
  next
    case False
    then show ?thesis by (auto split: option.splits)
  qed
qed

lemma blockLoop_live:
  assumes "consumes_s ps" and "live_s ps m"
  shows "tokens_left p < m \<Longrightarrow> tokens_left p < k \<Longrightarrow> blockLoop ps k stmts p \<noteq> OutOfFuel"
proof (induction k arbitrary: stmts p)
  case 0
  then show ?case by simp
next
  case (Suc k)
  show ?case
  proof (cases "Type (currentToken p) \<noteq> EOF \<and> Type (currentToken p) \<noteq> RBRACE")
    case True
    have 1: "ps p \<noteq> OutOfFuel" using assms(2) Suc.prems(1) by (rule live_sD)
    have 2: "blockLoop ps k (stmts @ [s]) p1 \<noteq> OutOfFuel" if "ps p = Done s p1" for s p1
    proof -
      have "tokens_left p1 \<le> tokens_left p - 1" using that by (rule consumes_sD [OF assms(1)])
      then have "tokens_left p1 < m" and "tokens_left p1 < k"
        using Suc.prems tokens_left_pos [of p] True by auto
      then show ?thesis by (rule Suc.IH)
    qed
    show ?thesis using True 1 2 by (auto simp: bind_OutOfFuel)
  next
    case False
    then show ?thesis by auto
  qed
qed

lemma programLoop_live:
  assumes "consumes_s ps" and "live_s ps m"
  shows "tokens_left p < m \<Longrightarrow> tokens_left p < k \<Longrightarrow> programLoop ps k stmts p \<noteq> OutOfFuel"
proof (induction k arbitrary: stmts p)
  case 0
  then show ?case by simp
next
  case (Suc k)
  show ?case
  proof (cases "Type (currentToken p) \<noteq> EOF")
    case True
    have 1: "ps p \<noteq> OutOfFuel" using assms(2) Suc.prems(1) by (rule live_sD)
    have 2: "programLoop ps k (stmts @ [s]) p1 \<noteq> OutOfFuel" if "ps p = Done s p1" for s p1
    proof -
      have "tokens_left p1 \<le> tokens_left p - 1" using that by (rule consumes_sD [OF assms(1)])
      then have "tokens_left p1 < m" and "tokens_left p1 < k"
        using Suc.prems tokens_left_pos [of p] True by auto
      then show ?thesis by (rule Suc.IH)
    qed
    show ?thesis using True 1 2 by (auto simp: bind_OutOfFuel)
  next
    case False
    then show ?thesis by auto
  qed
qed

lemma blockStatementParselet_live:
  assumes "consumes_s ps" and "live_s ps m" and "tokens_left p \<le> m" and "tokens_left p \<le> k"
  shows "blockStatementParselet ps k p \<noteq> OutOfFuel"
proof (cases "Type (currentToken p) = LBRACE")
  case True
  then have ne: "Type (currentToken p) \<noteq> EOF" by simp
  have "blockLoop ps k [] (consumeToken LBRACE p) \<noteq> OutOfFuel"
    using assms(1,2) consumeToken_less [OF ne assms(3)] consumeToken_less [OF ne assms(4)]
    by (rule blockLoop_live)
  then show ?thesis using True by (simp add: blockStatementParselet_def Let_def bind_live)
next
  case False
  then show ?thesis by (simp add: blockStatementParselet_def)
qed

lemma parseIfExpression_live:
  assumes "consumes_e pe" and "consumes_s ps" and "live_e pe a" and "live_s ps b"
    and "Type (currentToken p) \<noteq> EOF"
    and "tokens_left p \<le> a" and "tokens_left p \<le> b" and "tokens_left p \<le> k"
  shows "parseIfExpression pe ps k p \<noteq> OutOfFuel"
proof -
  let ?p2 = "consumeToken LPAREN (consumeToken IF p)"
  have 2: "tokens_left ?p2 < tokens_left p"
    using consumeToken_left [OF assms(5), of IF] consumeToken_left_le [of LPAREN "consumeToken IF p"]
    by simp
  have c: "pe LOWEST ?p2 \<noteq> OutOfFuel"
    using 2 assms(6) by (intro live_eD [OF assms(3)]) simp
  have blk: "blockStatementParselet ps k q \<noteq> OutOfFuel" if "tokens_left q \<le> tokens_left p" for q
    using that assms(7,8) by (intro blockStatementParselet_live [OF assms(2) assms(4)]) auto
  have rest: "bind (blockStatementParselet ps k (consumeToken RPAREN p3))
                (\<lambda>s p4.
                   case assertBlockStatement s of
                     None \<Rightarrow> Panic
                   | Some consequence \<Rightarrow>
                       if Type (currentToken p4) \<noteq> ELSE
                       then Done (Some (IfExpression (currentToken p) condition consequence None)) p4
                       else bind (blockStatementParselet ps k (consumeToken ELSE p4))
                              (\<lambda>s1 p5.
                                 case assertBlockStatement s1 of
                                   None \<Rightarrow> Panic
                                 | Some alternative \<Rightarrow>
                                     Done (Some (IfExpression (currentToken p) condition consequence
                                                   (Some alternative))) p5)) \<noteq> OutOfFuel"
    if "pe LOWEST ?p2 = Done condition p3" for condition p3
  proof -
    have 3: "tokens_left p3 \<le> tokens_left p" using consumes_eD [OF assms(1) that] 2 by simp
    then have t3: "tokens_left (consumeToken RPAREN p3) \<le> tokens_left p"
      using consumeToken_left_le [of RPAREN p3] by simp
    have b1: "blockStatementParselet ps k (consumeToken RPAREN p3) \<noteq> OutOfFuel"
      using t3 by (rule blk)
    have b2: "blockStatementParselet ps k (consumeToken ELSE p4) \<noteq> OutOfFuel"
      if "blockStatementParselet ps k (consumeToken RPAREN p3) = Done s p4" for s p4
    proof -
      have "tokens_left p4 \<le> tokens_left (consumeToken RPAREN p3)"
        using that by (rule blockStatementParselet_no_more(1) [OF assms(2)])
      then have "tokens_left (consumeToken ELSE p4) \<le> tokens_left p"
        using t3 consumeToken_left_le [of ELSE p4] by simp
      then show ?thesis by (rule blk)
    qed
    show ?thesis using b1 b2 by (auto simp: bind_live split: option.splits)
  qed
  show ?thesis using c rest by (simp add: parseIfExpression_def Let_def bind_live)
qed

lemma parseFunctionExpression_live:
  assumes "consumes_s ps" and "live_s ps b"
    and "tokens_left p \<le> b" and "tokens_left p \<le> k"
  shows "parseFunctionExpression ps k p \<noteq> OutOfFuel"
proof -
  let ?p2 = "consumeToken LPAREN (consumeToken FUNCTION p)"
  let ?p3 = "snd (parseParameters [] ?p2)"
  have "tokens_left ?p2 \<le> tokens_left p"
    using consumeToken_left_le [of FUNCTION p] consumeToken_left_le [of LPAREN "consumeToken FUNCTION p"]
    by simp
  then have "tokens_left (consumeToken RPAREN ?p3) \<le> tokens_left p"
    using parseParameters_no_more [of "[]" ?p2] consumeToken_left_le [of RPAREN ?p3] by simp
  then have "blockStatementParselet ps k (consumeToken RPAREN ?p3) \<noteq> OutOfFuel"
    using assms(3,4) by (intro blockStatementParselet_live [OF assms(1,2)]) auto
  then show ?thesis
    by (auto simp: parseFunctionExpression_def Let_def bind_live split: prod.splits option.splits)
qed

lemma prefixParser_live:
  assumes "consumes_e pe" and "consumes_s ps" and "live_e pe a" and "live_s ps b"
    and "Type (currentToken p) \<noteq> EOF"
    and "tokens_left p \<le> a" and "tokens_left p \<le> b" and "tokens_left p \<le> k"
  shows "prefixParser pe ps k fn p \<noteq> OutOfFuel"
proof (cases fn)
  case ParseIdentifier
  then show ?thesis by (simp add: parseIdentifier_def)
next
  case ParseIntegerLiteral
  then show ?thesis by (simp add: parseIntegerLiteral_def Let_def split: option.splits)
next
  case ParseBooleanLiteral
  then show ?thesis by (simp add: parseBooleanLiteral_def)
next
  case ParsePrefixOperator
  then show ?thesis using parsePrefixOperator_live [OF assms(3,5,6)] by simp
next
  case ParseGroupedExpression
  then show ?thesis using parseGroupedExpression_live [OF assms(3,5,6)] by simp
next
  case ParseIfExpression
  then show ?thesis using parseIfExpression_live [OF assms] by simp
next
  case ParseFunctionExpression
  then show ?thesis using parseFunctionExpression_live [OF assms(2,4,7,8)] by simp
qed

lemma parseExpressionBody_live:
  assumes "consumes_e pe" and "consumes_s ps" and "live_e pe a" and "live_s ps b"
    and "tokens_left p \<le> a" and "tokens_left p \<le> b" and "tokens_left p \<le> k"
  shows "parseExpressionBody pe ps k precedence p \<noteq> OutOfFuel"
proof (cases "prefixParsers (Type (currentToken p))")
  case None
  then show ?thesis by (simp add: parseExpressionBody_def)
next
  case (Some fn)
  then have ne: "Type (currentToken p) \<noteq> EOF" by (rule prefixParsers_not_EOF)
  have 1: "prefixParser pe ps k fn p \<noteq> OutOfFuel"
    using assms(1-4) ne assms(5-7) by (rule prefixParser_live)
  have 2: "infixLoop pe k precedence left p1 \<noteq> OutOfFuel"
    if "prefixParser pe ps k fn p = Done left p1" for left p1
  proof -
    have "tokens_left p1 \<le> tokens_left p - 1"
      using prefixParser_advances [OF assms(1,2), of p k fn] that by (simp add: advances_def)
    then have "tokens_left p1 \<le> a" and "tokens_left p1 < k"
      using assms(5,7) tokens_left_pos [OF ne] by auto
    then show ?thesis by (rule infixLoop_live [OF assms(1,3)])
  qed
  show ?thesis using Some 1 2 by (simp add: parseExpressionBody_def bind_live)
qed

lemma parseStatementBody_live:
  assumes "consumes_e pe" and "consumes_s ps" and "live_e pe a" and "live_s ps b"
    and "tokens_left p < a" and "tokens_left p \<le> b" and "tokens_left p \<le> k"
  shows "parseStatementBody pe ps k p \<noteq> OutOfFuel"
proof -
  have e: "pe precedence q \<noteq> OutOfFuel" if "tokens_left q \<le> tokens_left p" for precedence q
    using that assms(5) by (intro live_eD [OF assms(3)]) simp
  have 1: "expressionStatementParselet pe p \<noteq> OutOfFuel"
    using e [of p] by (simp add: expressionStatementParselet_def Let_def bind_live)
  have 2: "letStatementParselet pe p \<noteq> OutOfFuel"
  proof -
    have "tokens_left (consumeToken ASSIGN (consumeToken IDENT (consumeToken LET p))) \<le> tokens_left p"
      using consumeToken_left_le [of LET p] consumeToken_left_le [of IDENT "consumeToken LET p"]
        consumeToken_left_le [of ASSIGN "consumeToken IDENT (consumeToken LET p)"] by simp
    then show ?thesis using e by (simp add: letStatementParselet_def Let_def bind_live)
  qed
  have 3: "returnStatementParselet pe p \<noteq> OutOfFuel"
    using e [OF consumeToken_left_le [of RETURN p]]
    by (simp add: returnStatementParselet_def Let_def bind_live)
  have 4: "blockStatementParselet ps k p \<noteq> OutOfFuel"
    using assms(2,4,6,7) by (rule blockStatementParselet_live)
  show ?thesis
    using 1 2 3 4 by (simp add: parseStatementBody_def split: option.splits parselet.splits)
qed

lemma parse_live:
  "live_e (parseExpression n) ((n + 1) div 2) \<and> live_s (parseStatement n) (n div 2)"
proof (induction n)
  case 0
  show ?case by (simp add: live_e_def live_s_def)
next
  case (Suc n)
  note c = parse_consumes [of n]
  have e: "parseExpression (Suc n) precedence p \<noteq> OutOfFuel"
    if "tokens_left p < (Suc n + 1) div 2" for precedence p
  proof -
    have "tokens_left p \<le> (n + 1) div 2" and "tokens_left p \<le> n div 2" and "tokens_left p \<le> n"
      using that by auto
    then show ?thesis
      using parseExpressionBody_live [of "parseExpression n" "parseStatement n" "(n + 1) div 2"
          "n div 2" p n precedence] c Suc.IH
      by (simp add: parseExpression_Suc)
  qed
  have s: "parseStatement (Suc n) p \<noteq> OutOfFuel" if "tokens_left p < Suc n div 2" for p
  proof -
    have "tokens_left p < (n + 1) div 2" and "tokens_left p \<le> n div 2" and "tokens_left p \<le> n"
      using that by auto
    then show ?thesis
      using parseStatementBody_live [of "parseExpression n" "parseStatement n" "(n + 1) div 2"
          "n div 2" p n] c Suc.IH
      by (simp add: parseStatement_Suc)
  qed
  show ?case using e s by (simp add: live_e_def live_s_def)
qed

lemma ParseProgram_live:
  assumes "2 * tokens_left p + 2 \<le> n"
  shows "ParseProgram n p \<noteq> OutOfFuel"
proof -
  have "tokens_left p < n div 2" and "tokens_left p < n" using assms by auto
  then have "programLoop (parseStatement n) n [] p \<noteq> OutOfFuel"
    using parse_consumes [of n] parse_live [of n] by (intro programLoop_live) auto
  then show ?thesis by (simp add: ParseProgram_def bind_live)
qed

lemma lexer_rest_New: "lexer_rest (Lexer_New s) \<le> length s"
  by (auto simp: lexer_rest_def Lexer_New_def consumeNextChar_def Let_def)

lemma tokens_left_le_rest: "tokens_left p \<le> 2 + lexer_rest (lexer p)"
  by (simp add: tokens_left_def)

lemma lexer_rest_consumeNextToken: "lexer_rest (lexer (consumeNextToken p)) \<le> lexer_rest (lexer p)"
  using NextToken_rest [of "lexer p"]
  by (cases "NextToken (lexer p)") (auto simp: consumeNextToken_def)

lemma tokens_left_New: "tokens_left (Parser_New (Lexer_New s)) \<le> length s + 2"
proof -
  let ?p0 = "\<lparr>lexer = Lexer_New s, currentToken = zeroToken, nextToken = zeroToken, errors = []\<rparr>"
  have "lexer_rest (lexer (consumeNextToken (consumeNextToken ?p0))) \<le> lexer_rest (lexer ?p0)"
    using lexer_rest_consumeNextToken [of ?p0]
      lexer_rest_consumeNextToken [of "consumeNextToken ?p0"] by simp
  then have "lexer_rest (lexer (Parser_New (Lexer_New s))) \<le> length s"
    using lexer_rest_New [of s] by (simp add: Parser_New_def)
  then show ?thesis using tokens_left_le_rest [of "Parser_New (Lexer_New s)"] by simp
qed

lemma programLoop_ends_at_EOF:
  "programLoop ps k stmts p = Done a p' \<Longrightarrow> Type (currentToken p') = EOF"
proof (induction k arbitrary: stmts p)
  case 0
  then show ?case by simp
next
  case (Suc k)
  then show ?case by (auto simp: bind_Done split: if_splits)
qed

text \<open>
  C7. \<open>ParseProgram\<close> terminates on every source text: with fuel \<open>2 * length s + 6\<close> or
  more the run ends, by returning or by the panic of C4, and never by running out
  (for any parser state, fuel \<open>2 * tokens_left p + 2\<close> is enough). The reasons are the
  claim's: a statement parse that returns has consumed at least one token, the end marker
  once current stays current, and the loop returns only at the end marker.
\<close>

theorem ParseProgram_terminates:
  "(2 * length s + 6 \<le> n \<longrightarrow> parse_source n s \<noteq> OutOfFuel)
   \<and> (2 * tokens_left p + 2 \<le> n \<longrightarrow> ParseProgram n p \<noteq> OutOfFuel)
   \<and> (Type (currentToken p) \<noteq> EOF \<and> parseStatement n p = Done st p' \<longrightarrow>
        tokens_left p' < tokens_left p)
   \<and> (Type (currentToken q) = EOF \<longrightarrow> consumeNextToken q = q)
   \<and> (ParseProgram n p = Done prog p'' \<longrightarrow> Type (currentToken p'') = EOF)"
proof (intro conjI impI)
  assume "2 * length s + 6 \<le> n"
  then have "2 * tokens_left (Parser_New (Lexer_New s)) + 2 \<le> n"
    using tokens_left_New [of s] by simp
  then show "parse_source n s \<noteq> OutOfFuel"
    unfolding parse_source_def by (rule ParseProgram_live)
next
  assume "2 * tokens_left p + 2 \<le> n"
  then show "ParseProgram n p \<noteq> OutOfFuel" by (rule ParseProgram_live)
next
  assume a: "Type (currentToken p) \<noteq> EOF \<and> parseStatement n p = Done st p'"
  then have "tokens_left p' \<le> tokens_left p - 1"
    using parse_consumes [of n] by (auto dest: consumes_sD)
  then show "tokens_left p' < tokens_left p" using a tokens_left_pos [of p] by simp
next
  assume "Type (currentToken q) = EOF"
  then show "consumeNextToken q = q" by (rule consumeNextToken_EOF)
next
  assume "ParseProgram n p = Done prog p''"
  then obtain stmts where "programLoop (parseStatement n) n [] p = Done stmts p''"
    by (auto simp: ParseProgram_def bind_Done)
  then show "Type (currentToken p'') = EOF" by (rule programLoop_ends_at_EOF)
qed

theorem ParseProgram_terminates_witness:
  "2 * length ''let a = 1;'' + 6 \<le> (26::nat)
   \<and> parse_source 26 ''let a = 1;'' \<noteq> OutOfFuel
   \<and> Type (currentToken (Parser_New (Lexer_New ''let a = 1;''))) \<noteq> EOF
   \<and> parseStatement 26 (Parser_New (Lexer_New ''let a = 1;''))
       = Done (Some (LetStatement \<lparr>Type = LET, Literal = ''let''\<rparr>
                      (Identifier \<lparr>Type = IDENT, Literal = ''a''\<rparr> ''a'')
                      (Some (IntegerLiteral \<lparr>Type = INT', Literal = ''1''\<rparr> 1))))
              \<lparr>lexer = \<lparr>input = ''let a = 1;'', position = 10, nextPosition = 10, ch = CHR 0x00\<rparr>,
               currentToken = \<lparr>Type = EOF, Literal = []\<rparr>,
               nextToken = \<lparr>Type = EOF, Literal = []\<rparr>, errors = []\<rparr>
   \<and> Type (currentToken (Parser_New (Lexer_New []))) = EOF
   \<and> consumeNextToken (Parser_New (Lexer_New [])) = Parser_New (Lexer_New [])"
proof -
  have h1: "2 * length ''let a = 1;'' + 6 \<le> (26::nat)" by simp
  have c: "currentToken (Parser_New (Lexer_New ''let a = 1;'')) = \<lparr>Type = LET, Literal = ''let''\<rparr>"
    by (simp add: lexer_eval parser_eval cong: let_weak_cong)
  have h3: "Type (currentToken (Parser_New (Lexer_New ''let a = 1;''))) \<noteq> EOF"
    by (simp add: c)
  have st: "parseStatement 26 (Parser_New (Lexer_New ''let a = 1;''))
       = Done (Some (LetStatement \<lparr>Type = LET, Literal = ''let''\<rparr>
                      (Identifier \<lparr>Type = IDENT, Literal = ''a''\<rparr> ''a'')
                      (Some (IntegerLiteral \<lparr>Type = INT', Literal = ''1''\<rparr> 1))))
              \<lparr>lexer = \<lparr>input = ''let a = 1;'', position = 10, nextPosition = 10, ch = CHR 0x00\<rparr>,
               currentToken = \<lparr>Type = EOF, Literal = []\<rparr>,
               nextToken = \<lparr>Type = EOF, Literal = []\<rparr>, errors = []\<rparr>"
    by (simp add: lexer_eval parser_eval cong: let_weak_cong bind_weak_cong)
  have h4: "Type (currentToken (Parser_New (Lexer_New []))) = EOF"
    by (simp add: lexer_eval parser_eval cong: let_weak_cong)
  show ?thesis
    using ParseProgram_terminates [of "''let a = 1;''" 26 "Parser_New (Lexer_New ''let a = 1;'')"
        _ _ "Parser_New (Lexer_New [])"] h1 h3 st h4
    by simp
qed

section \<open>The parser builds no call expression\<close>

lemma no_call_simps [simp]:
  "no_call None"
  "no_call (Some (IdentifierExpr i))"
  "no_call (Some (IntegerLiteral tok v))"
  "no_call (Some (Boolean tok b))"
  "no_call (Some (PrefixExpression tok operator right)) \<longleftrightarrow> no_call right"
  "no_call (Some (InfixExpression tok left operator right)) \<longleftrightarrow> no_call left \<and> no_call right"
  "no_call (Some (FunctionLiteral tok parameters body)) \<longleftrightarrow> \<not> contains_call_block body"
  "no_call (Some (IfExpression tok condition consequence None)) \<longleftrightarrow>
     no_call condition \<and> \<not> contains_call_block consequence"
  "no_call (Some (IfExpression tok condition consequence (Some alternative))) \<longleftrightarrow>
     no_call condition \<and> \<not> contains_call_block consequence \<and> \<not> contains_call_block alternative"
  "\<not> no_call (Some (CallExpression tok function arguments))"
  by (simp_all add: no_call_def)

lemma no_call_stmt_simps [simp]:
  "no_call_stmt None"
  "no_call_stmt (Some (LetStatement tok name e)) \<longleftrightarrow> no_call e"
  "no_call_stmt (Some (ReturnStatement tok e)) \<longleftrightarrow> no_call e"
  "no_call_stmt (Some (ExpressionStatement tok e)) \<longleftrightarrow> no_call e"
  "no_call_stmt (Some (BlockStatementStmt b)) \<longleftrightarrow> \<not> contains_call_block b"
  by (simp_all add: no_call_stmt_def no_call_def)

lemma Some_True_in_map:
  "Some True \<in> set (map g xs) \<longleftrightarrow> \<not> list_all (\<lambda>x. g x \<noteq> Some True) xs"
  by (induction xs) auto

lemma contains_call_block_iff:
  "contains_call_block (BlockStatement tok stmts) \<longleftrightarrow> \<not> list_all no_call_stmt stmts"
  unfolding contains_call_block.simps Some_True_in_map no_call_stmt_def ..

lemma callfree_eD: "callfree_e pe \<Longrightarrow> pe precedence p = Done e p' \<Longrightarrow> no_call e"
  unfolding callfree_e_def by blast

lemma callfree_sD: "callfree_s ps \<Longrightarrow> ps p = Done s p' \<Longrightarrow> no_call_stmt s"
  unfolding callfree_s_def by blast

declare contains_call_block.simps [simp del]

lemma infixLoop_callfree:
  assumes "callfree_e pe"
  shows "no_call left \<Longrightarrow> infixLoop pe k precedence left p = Done a p' \<Longrightarrow> no_call a"
proof (induction k arbitrary: left p)
  case 0
  then show ?case by simp
next
  case (Suc k)
  show ?case
  proof (cases "Type (currentToken p) \<noteq> SEMICOLON \<and> precedence < getCurrentPrecedence p
                \<and> infixParsers (Type (currentToken p)) \<noteq> None")
    case True
    then obtain left1 p1 where i: "parseInfixExpression pe left p = Done left1 p1"
      and l: "infixLoop pe k precedence left1 p1 = Done a p'"
      using Suc.prems(2) by (auto simp: bind_Done split: infixParseFn.splits)
    from i obtain right where r: "pe (getCurrentPrecedence p) (consumeNextToken p) = Done right p1"
      and l1: "left1 = Some (InfixExpression (currentToken p) left (Literal (currentToken p)) right)"
      by (auto simp: parseInfixExpression_def Let_def bind_Done)
    have "no_call right" using r by (rule callfree_eD [OF assms])
    then have "no_call left1" using l1 Suc.prems(1) by simp
    then show ?thesis using l by (rule Suc.IH)
  next
    case False
    then have "a = left" using Suc.prems(2) by (auto split: if_splits)
    then show ?thesis using Suc.prems(1) by simp
  qed
qed

lemma blockLoop_callfree:
  assumes "callfree_s ps"
  shows "list_all no_call_stmt stmts \<Longrightarrow> blockLoop ps k stmts p = Done a p' \<Longrightarrow>
         list_all no_call_stmt a"
proof (induction k arbitrary: stmts p)
  case 0
  then show ?case by simp
next
  case (Suc k)
  show ?case
  proof (cases "Type (currentToken p) \<noteq> EOF \<and> Type (currentToken p) \<noteq> RBRACE")
    case True
    then obtain s p1 where i: "ps p = Done s p1"
      and l: "blockLoop ps k (stmts @ [s]) p1 = Done a p'"
      using Suc.prems(2) by (auto simp: bind_Done)
    have "no_call_stmt s" using i by (rule callfree_sD [OF assms])
    then have "list_all no_call_stmt (stmts @ [s])" using Suc.prems(1) by simp
    then show ?thesis using l by (rule Suc.IH)
  next
    case False
    then have "a = stmts" using Suc.prems(2) by (auto split: if_splits)
    then show ?thesis using Suc.prems(1) by simp
  qed
qed

lemma programLoop_callfree:
  assumes "callfree_s ps"
  shows "list_all no_call_stmt stmts \<Longrightarrow> programLoop ps k stmts p = Done a p' \<Longrightarrow>
         list_all no_call_stmt a"
proof (induction k arbitrary: stmts p)
  case 0
  then show ?case by simp
next
  case (Suc k)
  show ?case
  proof (cases "Type (currentToken p) \<noteq> EOF")
    case True
    then obtain s p1 where i: "ps p = Done s p1"
      and l: "programLoop ps k (stmts @ [s]) p1 = Done a p'"
      using Suc.prems(2) by (auto simp: bind_Done)
    have "no_call_stmt s" using i by (rule callfree_sD [OF assms])
    then have "list_all no_call_stmt (stmts @ [s])" using Suc.prems(1) by simp
    then show ?thesis using l by (rule Suc.IH)
  next
    case False
    then have "a = stmts" using Suc.prems(2) by (auto split: if_splits)
    then show ?thesis using Suc.prems(1) by simp
  qed
qed

lemma blockStatementParselet_callfree:
  assumes "callfree_s ps" and "blockStatementParselet ps k p = Done s p'"
  shows "no_call_stmt s"
proof (cases "Type (currentToken p) = LBRACE")
  case True
  then obtain stmts p2 where l: "blockLoop ps k [] (consumeToken LBRACE p) = Done stmts p2"
    and s: "s = Some (BlockStatementStmt (BlockStatement (currentToken p) stmts))"
    using assms(2) by (auto simp: blockStatementParselet_def Let_def bind_Done)
  have "list_all no_call_stmt stmts"
    by (rule blockLoop_callfree [OF assms(1) _ l]) simp
  then show ?thesis using s by (simp add: contains_call_block_iff)
next
  case False
  then have "s = None" using assms(2) by (simp add: blockStatementParselet_def)
  then show ?thesis by simp
qed

lemma assertBlockStatement_Some:
  "assertBlockStatement s = Some b \<longleftrightarrow> s = Some (BlockStatementStmt b)"
  by (cases s rule: assertBlockStatement.cases) auto

lemma block_callfree:
  assumes "callfree_s ps" and "blockStatementParselet ps k p = Done s p'"
    and "assertBlockStatement s = Some b"
  shows "\<not> contains_call_block b"
  using blockStatementParselet_callfree [OF assms(1,2)] assms(3)
  by (simp add: assertBlockStatement_Some)

lemma parseIfExpression_callfree:
  assumes "callfree_e pe" and "callfree_s ps" and "parseIfExpression pe ps k p = Done e p'"
  shows "no_call e"
proof -
  let ?p2 = "consumeToken LPAREN (consumeToken IF p)"
  from assms(3) obtain condition p3 s p4 consequence where
    c: "pe LOWEST ?p2 = Done condition p3"
    and b: "blockStatementParselet ps k (consumeToken RPAREN p3) = Done s p4"
    and a: "assertBlockStatement s = Some consequence"
    and rest: "(if Type (currentToken p4) \<noteq> ELSE
                       then Done (Some (IfExpression (currentToken p) condition consequence None)) p4
                       else bind (blockStatementParselet ps k (consumeToken ELSE p4))
                              (\<lambda>s1 p5.
                                 case assertBlockStatement s1 of
                                   None \<Rightarrow> Panic
                                 | Some alternative \<Rightarrow>
                                     Done (Some (IfExpression (currentToken p) condition consequence
                                                   (Some alternative))) p5)) = Done e p'"
    by (auto simp: parseIfExpression_def Let_def bind_Done split: option.splits)
  have 1: "no_call condition" using c by (rule callfree_eD [OF assms(1)])
  have 2: "\<not> contains_call_block consequence" using assms(2) b a by (rule block_callfree)
  show ?thesis
  proof (cases "Type (currentToken p4) \<noteq> ELSE")
    case True
    then have "e = Some (IfExpression (currentToken p) condition consequence None)"
      using rest by simp
    then show ?thesis using 1 2 by simp
  next
    case False
    then obtain s1 p5 alternative where
      b1: "blockStatementParselet ps k (consumeToken ELSE p4) = Done s1 p5"
      and a1: "assertBlockStatement s1 = Some alternative"
      and e: "e = Some (IfExpression (currentToken p) condition consequence (Some alternative))"
      using rest by (auto simp: bind_Done split: option.splits)
    have "\<not> contains_call_block alternative" using assms(2) b1 a1 by (rule block_callfree)
    then show ?thesis using e 1 2 by simp
  qed
qed

lemma parseFunctionExpression_callfree:
  assumes "callfree_s ps" and "parseFunctionExpression ps k p = Done e p'"
  shows "no_call e"
proof -
  let ?p2 = "consumeToken LPAREN (consumeToken FUNCTION p)"
  from assms(2) obtain s body where
    b: "blockStatementParselet ps k (consumeToken RPAREN (snd (parseParameters [] ?p2))) = Done s p'"
    and a: "assertBlockStatement s = Some body"
    and e: "e = Some (FunctionLiteral (currentToken p) (fst (parseParameters [] ?p2)) body)"
    by (auto simp: parseFunctionExpression_def Let_def bind_Done split: prod.splits option.splits)
  have "\<not> contains_call_block body" using assms(1) b a by (rule block_callfree)
  then show ?thesis using e by simp
qed

lemma prefixParser_callfree:
  assumes "callfree_e pe" and "callfree_s ps" and "prefixParser pe ps k fn p = Done e p'"
  shows "no_call e"
proof (cases fn)
  case ParseIdentifier
  then show ?thesis using assms(3) by (auto simp: parseIdentifier_def)
next
  case ParseIntegerLiteral
  then show ?thesis
    using assms(3) by (auto simp: parseIntegerLiteral_def Let_def split: option.splits)
next
  case ParseBooleanLiteral
  then show ?thesis using assms(3) by (auto simp: parseBooleanLiteral_def)
next
  case ParsePrefixOperator
  then obtain right where "pe PREFIX (consumeNextToken p) = Done right p'"
    and "e = Some (PrefixExpression (currentToken p) (Literal (currentToken p)) right)"
    using assms(3) by (auto simp: parsePrefixOperator_def Let_def bind_Done)
  then show ?thesis using callfree_eD [OF assms(1)] by simp
next
  case ParseGroupedExpression
  then obtain p2 where "pe LOWEST (consumeToken LPAREN p) = Done e p2"
    using assms(3) by (auto simp: parseGroupedExpression_def Let_def bind_Done)
  then show ?thesis by (rule callfree_eD [OF assms(1)])
next
  case ParseIfExpression
  then show ?thesis using assms(3) parseIfExpression_callfree [OF assms(1,2)] by simp
next
  case ParseFunctionExpression
  then show ?thesis using assms(3) parseFunctionExpression_callfree [OF assms(2)] by simp
qed

lemma parseExpressionBody_callfree:
  assumes "callfree_e pe" and "callfree_s ps"
    and "parseExpressionBody pe ps k precedence p = Done e p'"
  shows "no_call e"
proof (cases "prefixParsers (Type (currentToken p))")
  case None
  then have "e = None" using assms(3) by (simp add: parseExpressionBody_def)
  then show ?thesis by simp
next
  case (Some fn)
  then obtain left p1 where f: "prefixParser pe ps k fn p = Done left p1"
    and l: "infixLoop pe k precedence left p1 = Done e p'"
    using assms(3) by (auto simp: parseExpressionBody_def bind_Done)
  have "no_call left" using assms(1,2) f by (rule prefixParser_callfree)
  then show ?thesis using l by (rule infixLoop_callfree [OF assms(1)])
qed

lemma expressionStatementParselet_callfree:
  assumes "callfree_e pe" and "expressionStatementParselet pe p = Done s p'"
  shows "no_call_stmt s"
proof -
  from assms(2) obtain expr p1 where "pe LOWEST p = Done expr p1"
    and "s = Some (ExpressionStatement (currentToken p) expr)"
    by (auto simp: expressionStatementParselet_def Let_def bind_Done)
  then show ?thesis using callfree_eD [OF assms(1)] by simp
qed

lemma letStatementParselet_callfree:
  assumes "callfree_e pe" and "letStatementParselet pe p = Done s p'"
  shows "no_call_stmt s"
proof (cases "Type (currentToken p) = LET")
  case True
  then obtain v p4 name where
    "pe LOWEST (consumeToken ASSIGN (consumeToken IDENT (consumeToken LET p))) = Done v p4"
    and "s = Some (LetStatement (currentToken p) name v)"
    using assms(2) by (auto simp: letStatementParselet_def Let_def bind_Done)
  then show ?thesis using callfree_eD [OF assms(1)] by simp
next
  case False
  then have "s = None" using assms(2) by (simp add: letStatementParselet_def)
  then show ?thesis by simp
qed

lemma returnStatementParselet_callfree:
  assumes "callfree_e pe" and "returnStatementParselet pe p = Done s p'"
  shows "no_call_stmt s"
proof (cases "Type (currentToken p) = RETURN")
  case True
  then obtain v p2 where "pe LOWEST (consumeToken RETURN p) = Done v p2"
    and "s = Some (ReturnStatement (currentToken p) v)"
    using assms(2) by (auto simp: returnStatementParselet_def Let_def bind_Done)
  then show ?thesis using callfree_eD [OF assms(1)] by simp
next
  case False
  then have "s = None" using assms(2) by (simp add: returnStatementParselet_def)
  then show ?thesis by simp
qed

lemma parseStatementBody_callfree:
  assumes "callfree_e pe" and "callfree_s ps" and "parseStatementBody pe ps k p = Done s p'"
  shows "no_call_stmt s"
proof (cases "parselets (Type (currentToken p))")
  case None
  then show ?thesis
    using assms(3) expressionStatementParselet_callfree [OF assms(1)]
    by (simp add: parseStatementBody_def)
next
  case (Some f)
  then show ?thesis
    using assms(3) letStatementParselet_callfree [OF assms(1)]
      returnStatementParselet_callfree [OF assms(1)] blockStatementParselet_callfree [OF assms(2)]
    by (cases f) (simp_all add: parseStatementBody_def)
qed

lemma parse_callfree: "callfree_e (parseExpression n) \<and> callfree_s (parseStatement n)"
proof (induction n)
  case 0
  then show ?case by (simp add: callfree_e_def callfree_s_def)
next
  case (Suc n)
  then have e: "callfree_e (parseExpression n)" and s: "callfree_s (parseStatement n)" by auto
  have "callfree_e (parseExpression (Suc n))"
    unfolding callfree_e_def parseExpression_Suc
    using parseExpressionBody_callfree [OF e s] by blast
  moreover have "callfree_s (parseStatement (Suc n))"
    unfolding callfree_s_def parseStatement_Suc
    using parseStatementBody_callfree [OF e s] by blast
  ultimately show ?case by simp
qed

lemma ParseProgram_callfree: "\<not> program_contains_call (ParseProgram n p)"
proof (cases "ParseProgram n p")
  case (Done prog p')
  then obtain stmts where l: "programLoop (parseStatement n) n [] p = Done stmts p'"
    and pr: "prog = \<lparr>Statements = stmts\<rparr>"
    by (auto simp: ParseProgram_def bind_Done)
  have "callfree_s (parseStatement n)" using parse_callfree [of n] by simp
  then have "list_all no_call_stmt stmts"
    by (rule programLoop_callfree [OF _ _ l]) simp
  then show ?thesis using Done pr by (simp add: program_contains_call_def)
qed (simp_all add: program_contains_call_def)

text \<open>
  C1 fails: the parser has no call form. On \<open>add(1, 2);\<close> the callee and the arguments
  become separate expression statements, and two diagnostics are recorded.
\<close>

theorem call_form_counterexample:
  "expressions (parse_source 20 ''add(1, 2);'')
     = Some [Some (IdentifierExpr (Identifier \<lparr>Type = IDENT, Literal = ''add''\<rparr> ''add'')),
             Some (IntegerLiteral \<lparr>Type = INT', Literal = ''1''\<rparr> 1),
             Some (IntegerLiteral \<lparr>Type = INT', Literal = ''2''\<rparr> 2),
             None]
   \<and> diagnostics (parse_source 20 ''add(1, 2);'')
     = Some [''Could not properly consume token: {, ,} expected: )'',
             ''Unable to consume prefix: {) )}'']"
  by (simp add: lexer_eval parser_eval render_eval cong: let_weak_cong bind_weak_cong)

text \<open>
  C1 (as amended). No source text makes the parser produce a \<open>CallExpression\<close>, at any
  depth of the program it returns. A \<open>CallExpression\<close> node whose callee and arguments
  render is rendered as the callee's text, \<open>(\<close>, the arguments' texts in order joined by
  a comma and a space, and \<open>)\<close>.
\<close>

theorem no_call_form:
  "\<not> program_contains_call (parse_source n s)
   \<and> (Expression_String f = Some fs
        \<and> all_strings (map on_interface (map (map_option Expression_String) args)) = Some ss
      \<longrightarrow> Expression_String (CallExpression tok (Some f) args)
            = Some (fs @ ''('' @ Join ss '', '' @ '')''))"
  using ParseProgram_callfree [of n "Parser_New (Lexer_New s)"]
  by (simp add: parse_source_def on_interface_def)

theorem no_call_form_witness:
  "Expression_String (IdentifierExpr (Identifier \<lparr>Type = IDENT, Literal = ''add''\<rparr> ''add''))
     = Some ''add''
   \<and> all_strings (map on_interface (map (map_option Expression_String)
         [Some (IntegerLiteral \<lparr>Type = INT', Literal = ''1''\<rparr> 1),
          Some (IntegerLiteral \<lparr>Type = INT', Literal = ''2''\<rparr> 2)])) = Some [''1'', ''2'']
   \<and> Expression_String (CallExpression \<lparr>Type = LPAREN, Literal = ''(''\<rparr>
         (Some (IdentifierExpr (Identifier \<lparr>Type = IDENT, Literal = ''add''\<rparr> ''add'')))
         [Some (IntegerLiteral \<lparr>Type = INT', Literal = ''1''\<rparr> 1),
          Some (IntegerLiteral \<lparr>Type = INT', Literal = ''2''\<rparr> 2)]) = Some ''add(1, 2)''
   \<and> \<not> program_contains_call (parse_source 20 ''add(1, 2);'')"
proof -
  have h1: "Expression_String (IdentifierExpr (Identifier \<lparr>Type = IDENT, Literal = ''add''\<rparr> ''add''))
     = Some ''add''" by simp
  have h2: "all_strings (map on_interface (map (map_option Expression_String)
         [Some (IntegerLiteral \<lparr>Type = INT', Literal = ''1''\<rparr> 1),
          Some (IntegerLiteral \<lparr>Type = INT', Literal = ''2''\<rparr> 2)])) = Some [''1'', ''2'']"
    by (simp add: on_interface_def)
  show ?thesis
    using no_call_form [of 20 "''add(1, 2);''"
        "IdentifierExpr (Identifier \<lparr>Type = IDENT, Literal = ''add''\<rparr> ''add'')" "''add''"
        "[Some (IntegerLiteral \<lparr>Type = INT', Literal = ''1''\<rparr> 1),
          Some (IntegerLiteral \<lparr>Type = INT', Literal = ''2''\<rparr> 2)]" "[''1'', ''2'']"
        "\<lparr>Type = LPAREN, Literal = ''(''\<rparr>"] h1 h2
    by simp
qed

section \<open>More fuel does not change a result\<close>

lemma bind_extends:
  assumes "bind m f \<noteq> OutOfFuel"
    and "m \<noteq> OutOfFuel \<Longrightarrow> m' = m"
    and "\<And>a p. m = Done a p \<Longrightarrow> f a p \<noteq> OutOfFuel \<Longrightarrow> f' a p = f a p"
  shows "bind m' f' = bind m f"
  using assms by (cases m) auto

lemma extends_eD:
  "extends_e pe pe' \<Longrightarrow> pe precedence p \<noteq> OutOfFuel \<Longrightarrow> pe' precedence p = pe precedence p"
  by (simp add: extends_e_def)

lemma extends_sD: "extends_s ps ps' \<Longrightarrow> ps p \<noteq> OutOfFuel \<Longrightarrow> ps' p = ps p"
  by (simp add: extends_s_def)

lemma parsePrefixOperator_extends:
  assumes "extends_e pe pe'" and "parsePrefixOperator pe p \<noteq> OutOfFuel"
  shows "parsePrefixOperator pe' p = parsePrefixOperator pe p"
  using assms(2) unfolding parsePrefixOperator_def Let_def
  by (rule bind_extends) (simp_all add: extends_eD [OF assms(1)])

lemma parseGroupedExpression_extends:
  assumes "extends_e pe pe'" and "parseGroupedExpression pe p \<noteq> OutOfFuel"
  shows "parseGroupedExpression pe' p = parseGroupedExpression pe p"
  using assms(2) unfolding parseGroupedExpression_def Let_def
  by (rule bind_extends) (simp_all add: extends_eD [OF assms(1)])

lemma parseInfixExpression_extends:
  assumes "extends_e pe pe'" and "parseInfixExpression pe left p \<noteq> OutOfFuel"
  shows "parseInfixExpression pe' left p = parseInfixExpression pe left p"
  using assms(2) unfolding parseInfixExpression_def Let_def
  by (rule bind_extends) (simp_all add: extends_eD [OF assms(1)])

lemma infixLoop_extends:
  assumes "extends_e pe pe'"
  shows "infixLoop pe k precedence left p \<noteq> OutOfFuel \<Longrightarrow> k \<le> k' \<Longrightarrow>
         infixLoop pe' k' precedence left p = infixLoop pe k precedence left p"
proof (induction k arbitrary: k' left p)
  case 0
  then show ?case by simp
next
  case (Suc k)
  then obtain j where k': "k' = Suc j" and kj: "k \<le> j" by (cases k') auto
  show ?case
  proof (cases "Type (currentToken p) \<noteq> SEMICOLON \<and> precedence < getCurrentPrecedence p
                \<and> infixParsers (Type (currentToken p)) \<noteq> None")
    case True
    then obtain fn where "infixParsers (Type (currentToken p)) = Some fn" by auto
    then have f: "infixParsers (Type (currentToken p)) = Some ParseInfixExpression"
      by (cases fn) simp
    have b: "bind (parseInfixExpression pe left p) (\<lambda>left1 p1. infixLoop pe k precedence left1 p1)
        \<noteq> OutOfFuel"
      using Suc.prems(1) True f by simp
    have "bind (parseInfixExpression pe' left p) (\<lambda>left1 p1. infixLoop pe' j precedence left1 p1)
        = bind (parseInfixExpression pe left p) (\<lambda>left1 p1. infixLoop pe k precedence left1 p1)"
      using b
    proof (rule bind_extends)
      show "parseInfixExpression pe' left p = parseInfixExpression pe left p"
        if "parseInfixExpression pe left p \<noteq> OutOfFuel"
        using assms that by (rule parseInfixExpression_extends)
      show "infixLoop pe' j precedence a q = infixLoop pe k precedence a q"
        if "infixLoop pe k precedence a q \<noteq> OutOfFuel" for a q
        using that kj by (rule Suc.IH)
    qed
    then show ?thesis using True f k' by simp
  next
    case False
    then show ?thesis using k' by (auto split: option.splits)
  qed
qed

lemma blockLoop_extends:
  assumes "extends_s ps ps'"
  shows "blockLoop ps k stmts p \<noteq> OutOfFuel \<Longrightarrow> k \<le> k' \<Longrightarrow>
         blockLoop ps' k' stmts p = blockLoop ps k stmts p"
proof (induction k arbitrary: k' stmts p)
  case 0
  then show ?case by simp
next
  case (Suc k)
  then obtain j where k': "k' = Suc j" and kj: "k \<le> j" by (cases k') auto
  show ?case
  proof (cases "Type (currentToken p) \<noteq> EOF \<and> Type (currentToken p) \<noteq> RBRACE")
    case True
    have b: "bind (ps p) (\<lambda>s p1. blockLoop ps k (stmts @ [s]) p1) \<noteq> OutOfFuel"
      using Suc.prems(1) True by simp
    have "bind (ps' p) (\<lambda>s p1. blockLoop ps' j (stmts @ [s]) p1)
        = bind (ps p) (\<lambda>s p1. blockLoop ps k (stmts @ [s]) p1)"
      using b
    proof (rule bind_extends)
      show "ps' p = ps p" if "ps p \<noteq> OutOfFuel" using assms that by (rule extends_sD)
      show "blockLoop ps' j (stmts @ [a]) q = blockLoop ps k (stmts @ [a]) q"
        if "blockLoop ps k (stmts @ [a]) q \<noteq> OutOfFuel" for a q
        using that kj by (rule Suc.IH)
    qed
    then show ?thesis using True k' by simp
  next
    case False
    then show ?thesis using k' by auto
  qed
qed

lemma programLoop_extends:
  assumes "extends_s ps ps'"
  shows "programLoop ps k stmts p \<noteq> OutOfFuel \<Longrightarrow> k \<le> k' \<Longrightarrow>
         programLoop ps' k' stmts p = programLoop ps k stmts p"
proof (induction k arbitrary: k' stmts p)
  case 0
  then show ?case by simp
next
  case (Suc k)
  then obtain j where k': "k' = Suc j" and kj: "k \<le> j" by (cases k') auto
  show ?case
  proof (cases "Type (currentToken p) \<noteq> EOF")
    case True
    have b: "bind (ps p) (\<lambda>s p1. programLoop ps k (stmts @ [s]) p1) \<noteq> OutOfFuel"
      using Suc.prems(1) True by simp
    have "bind (ps' p) (\<lambda>s p1. programLoop ps' j (stmts @ [s]) p1)
        = bind (ps p) (\<lambda>s p1. programLoop ps k (stmts @ [s]) p1)"
      using b
    proof (rule bind_extends)
      show "ps' p = ps p" if "ps p \<noteq> OutOfFuel" using assms that by (rule extends_sD)
      show "programLoop ps' j (stmts @ [a]) q = programLoop ps k (stmts @ [a]) q"
        if "programLoop ps k (stmts @ [a]) q \<noteq> OutOfFuel" for a q
        using that kj by (rule Suc.IH)
    qed
    then show ?thesis using True k' by simp
  next
    case False
    then show ?thesis using k' by auto
  qed
qed

lemma blockStatementParselet_extends:
  assumes "extends_s ps ps'" and "blockStatementParselet ps k p \<noteq> OutOfFuel" and "k \<le> k'"
  shows "blockStatementParselet ps' k' p = blockStatementParselet ps k p"
proof (cases "Type (currentToken p) = LBRACE")
  case True
  then have "blockLoop ps k [] (consumeToken LBRACE p) \<noteq> OutOfFuel"
    using assms(2) by (auto simp: blockStatementParselet_def Let_def)
  then have "blockLoop ps' k' [] (consumeToken LBRACE p) = blockLoop ps k [] (consumeToken LBRACE p)"
    using assms(3) by (rule blockLoop_extends [OF assms(1)])
  then show ?thesis by (simp add: blockStatementParselet_def Let_def)
next
  case False
  then show ?thesis by (simp add: blockStatementParselet_def)
qed

lemma parseIfExpression_extends:
  assumes "extends_e pe pe'" and "extends_s ps ps'" and "k \<le> k'"
    and "parseIfExpression pe ps k p \<noteq> OutOfFuel"
  shows "parseIfExpression pe' ps' k' p = parseIfExpression pe ps k p"
  using assms(4) unfolding parseIfExpression_def Let_def
proof (rule bind_extends)
  let ?p2 = "consumeToken LPAREN (consumeToken IF p)"
  show "pe' LOWEST ?p2 = pe LOWEST ?p2" if "pe LOWEST ?p2 \<noteq> OutOfFuel"
    using assms(1) that by (rule extends_eD)
next
  fix condition p3
  let ?f = "\<lambda>ps k. (\<lambda>s p4.
                   case assertBlockStatement s of
                     None \<Rightarrow> Panic
                   | Some consequence \<Rightarrow>
                       if Type (currentToken p4) \<noteq> ELSE
                       then Done (Some (IfExpression (currentToken p) condition consequence None)) p4
                       else bind (blockStatementParselet ps k (consumeToken ELSE p4))
                              (\<lambda>s1 p5.
                                 case assertBlockStatement s1 of
                                   None \<Rightarrow> Panic
                                 | Some alternative \<Rightarrow>
                                     Done (Some (IfExpression (currentToken p) condition consequence
                                                   (Some alternative))) p5))"
  assume ne: "bind (blockStatementParselet ps k (consumeToken RPAREN p3)) (?f ps k) \<noteq> OutOfFuel"
  show "bind (blockStatementParselet ps' k' (consumeToken RPAREN p3)) (?f ps' k')
      = bind (blockStatementParselet ps k (consumeToken RPAREN p3)) (?f ps k)"
    using ne
  proof (rule bind_extends)
    show "blockStatementParselet ps' k' (consumeToken RPAREN p3)
        = blockStatementParselet ps k (consumeToken RPAREN p3)"
      if "blockStatementParselet ps k (consumeToken RPAREN p3) \<noteq> OutOfFuel"
      using assms(2) that assms(3) by (rule blockStatementParselet_extends)
  next
    fix s p4 assume n2: "?f ps k s p4 \<noteq> OutOfFuel"
    show "?f ps' k' s p4 = ?f ps k s p4"
    proof (cases "assertBlockStatement s")
      case None
      then show ?thesis by simp
    next
      case (Some consequence)
      show ?thesis
      proof (cases "Type (currentToken p4) \<noteq> ELSE")
        case True
        then show ?thesis using Some by simp
      next
        case False
        then have "blockStatementParselet ps k (consumeToken ELSE p4) \<noteq> OutOfFuel"
          using n2 Some by (auto simp: bind_OutOfFuel)
        then have "blockStatementParselet ps' k' (consumeToken ELSE p4)
            = blockStatementParselet ps k (consumeToken ELSE p4)"
          using assms(3) by (rule blockStatementParselet_extends [OF assms(2)])
        then show ?thesis using Some False by simp
      qed
    qed
  qed
qed

lemma parseFunctionExpression_extends:
  assumes "extends_s ps ps'" and "k \<le> k'" and "parseFunctionExpression ps k p \<noteq> OutOfFuel"
  shows "parseFunctionExpression ps' k' p = parseFunctionExpression ps k p"
proof -
  obtain params p3 where
    pp: "parseParameters [] (consumeToken LPAREN (consumeToken FUNCTION p)) = (params, p3)"
    by (cases "parseParameters [] (consumeToken LPAREN (consumeToken FUNCTION p))")
  have "blockStatementParselet ps k (consumeToken RPAREN p3) \<noteq> OutOfFuel"
    using assms(3) by (auto simp: parseFunctionExpression_def Let_def pp)
  then have "blockStatementParselet ps' k' (consumeToken RPAREN p3)
      = blockStatementParselet ps k (consumeToken RPAREN p3)"
    using assms(2) by (rule blockStatementParselet_extends [OF assms(1)])
  then show ?thesis
    by (simp add: parseFunctionExpression_def Let_def pp)
qed

lemma prefixParser_extends:
  assumes "extends_e pe pe'" and "extends_s ps ps'" and "k \<le> k'"
    and "prefixParser pe ps k fn p \<noteq> OutOfFuel"
  shows "prefixParser pe' ps' k' fn p = prefixParser pe ps k fn p"
  using assms(4) parsePrefixOperator_extends [OF assms(1), of p]
    parseGroupedExpression_extends [OF assms(1), of p]
    parseIfExpression_extends [OF assms(1,2,3), of p]
    parseFunctionExpression_extends [OF assms(2,3), of p]
  by (cases fn) simp_all

lemma parseExpressionBody_extends:
  assumes "extends_e pe pe'" and "extends_s ps ps'" and "k \<le> k'"
    and "parseExpressionBody pe ps k precedence p \<noteq> OutOfFuel"
  shows "parseExpressionBody pe' ps' k' precedence p = parseExpressionBody pe ps k precedence p"
proof (cases "prefixParsers (Type (currentToken p))")
  case None
  then show ?thesis by (simp add: parseExpressionBody_def)
next
  case (Some fn)
  have b: "bind (prefixParser pe ps k fn p) (\<lambda>left p1. infixLoop pe k precedence left p1)
      \<noteq> OutOfFuel"
    using assms(4) Some by (simp add: parseExpressionBody_def)
  have "bind (prefixParser pe' ps' k' fn p) (\<lambda>left p1. infixLoop pe' k' precedence left p1)
      = bind (prefixParser pe ps k fn p) (\<lambda>left p1. infixLoop pe k precedence left p1)"
    using b
  proof (rule bind_extends)
    show "prefixParser pe' ps' k' fn p = prefixParser pe ps k fn p"
      if "prefixParser pe ps k fn p \<noteq> OutOfFuel"
      using assms(1,2,3) that by (rule prefixParser_extends)
    show "infixLoop pe' k' precedence a q = infixLoop pe k precedence a q"
      if "infixLoop pe k precedence a q \<noteq> OutOfFuel" for a q
      using that assms(3) by (rule infixLoop_extends [OF assms(1)])
  qed
  then show ?thesis using Some by (simp add: parseExpressionBody_def)
qed

lemma letStatementParselet_extends:
  assumes "extends_e pe pe'" and "letStatementParselet pe p \<noteq> OutOfFuel"
  shows "letStatementParselet pe' p = letStatementParselet pe p"
proof (cases "Type (currentToken p) = LET")
  case True
  then show ?thesis
    using assms(2) unfolding letStatementParselet_def Let_def
    by (simp add: bind_OutOfFuel bind_extends extends_eD [OF assms(1)])
next
  case False
  then show ?thesis by (simp add: letStatementParselet_def)
qed

lemma returnStatementParselet_extends:
  assumes "extends_e pe pe'" and "returnStatementParselet pe p \<noteq> OutOfFuel"
  shows "returnStatementParselet pe' p = returnStatementParselet pe p"
proof (cases "Type (currentToken p) = RETURN")
  case True
  then show ?thesis
    using assms(2) unfolding returnStatementParselet_def Let_def
    by (simp add: bind_OutOfFuel bind_extends extends_eD [OF assms(1)])
next
  case False
  then show ?thesis by (simp add: returnStatementParselet_def)
qed

lemma expressionStatementParselet_extends:
  assumes "extends_e pe pe'" and "expressionStatementParselet pe p \<noteq> OutOfFuel"
  shows "expressionStatementParselet pe' p = expressionStatementParselet pe p"
  using assms(2) unfolding expressionStatementParselet_def Let_def
  by (rule bind_extends) (simp_all add: extends_eD [OF assms(1)])

lemma parseStatementBody_extends:
  assumes "extends_e pe pe'" and "extends_s ps ps'" and "k \<le> k'"
    and "parseStatementBody pe ps k p \<noteq> OutOfFuel"
  shows "parseStatementBody pe' ps' k' p = parseStatementBody pe ps k p"
proof (cases "parselets (Type (currentToken p))")
  case None
  then show ?thesis
    using assms(4) expressionStatementParselet_extends [OF assms(1), of p]
    by (simp add: parseStatementBody_def)
next
  case (Some f)
  then show ?thesis
    using assms(4) letStatementParselet_extends [OF assms(1), of p]
      returnStatementParselet_extends [OF assms(1), of p]
      blockStatementParselet_extends [OF assms(2) _ assms(3), of p]
    by (cases f) (simp_all add: parseStatementBody_def)
qed

lemma parse_extends_Suc:
  "extends_e (parseExpression n) (parseExpression (Suc n))
   \<and> extends_s (parseStatement n) (parseStatement (Suc n))"
proof (induction n)
  case 0
  then show ?case by (simp add: extends_e_def extends_s_def)
next
  case (Suc n)
  then have e: "extends_e (parseExpression n) (parseExpression (Suc n))"
    and s: "extends_s (parseStatement n) (parseStatement (Suc n))" by auto
  have "extends_e (parseExpression (Suc n)) (parseExpression (Suc (Suc n)))"
    unfolding extends_e_def
  proof (intro allI impI)
    fix precedence p
    assume "parseExpression (Suc n) precedence p \<noteq> OutOfFuel"
    then have "parseExpressionBody (parseExpression n) (parseStatement n) n precedence p \<noteq> OutOfFuel"
      by (simp add: parseExpression_Suc)
    then have "parseExpressionBody (parseExpression (Suc n)) (parseStatement (Suc n)) (Suc n) precedence p
        = parseExpressionBody (parseExpression n) (parseStatement n) n precedence p"
      by (intro parseExpressionBody_extends [OF e s]) simp_all
    then show "parseExpression (Suc (Suc n)) precedence p = parseExpression (Suc n) precedence p"
      by (simp add: parseExpression_Suc)
  qed
  moreover have "extends_s (parseStatement (Suc n)) (parseStatement (Suc (Suc n)))"
    unfolding extends_s_def
  proof (intro allI impI)
    fix p
    assume "parseStatement (Suc n) p \<noteq> OutOfFuel"
    then have "parseStatementBody (parseExpression n) (parseStatement n) n p \<noteq> OutOfFuel"
      by (simp add: parseStatement_Suc)
    then have "parseStatementBody (parseExpression (Suc n)) (parseStatement (Suc n)) (Suc n) p
        = parseStatementBody (parseExpression n) (parseStatement n) n p"
      by (intro parseStatementBody_extends [OF e s]) simp_all
    then show "parseStatement (Suc (Suc n)) p = parseStatement (Suc n) p"
      by (simp add: parseStatement_Suc)
  qed
  ultimately show ?case by simp
qed

lemma parse_extends:
  "n \<le> m \<Longrightarrow> extends_e (parseExpression n) (parseExpression m)
     \<and> extends_s (parseStatement n) (parseStatement m)"
proof (induction m)
  case 0
  then show ?case by (simp add: extends_e_def extends_s_def)
next
  case (Suc m)
  show ?case
  proof (cases "n = Suc m")
    case True
    then show ?thesis by (simp add: extends_e_def extends_s_def)
  next
    case False
    then have "extends_e (parseExpression n) (parseExpression m)"
      and "extends_s (parseStatement n) (parseStatement m)"
      using Suc by auto
    then show ?thesis
      using parse_extends_Suc [of m] unfolding extends_e_def extends_s_def by metis
  qed
qed

lemma ParseProgram_more_fuel:
  assumes "ParseProgram n p \<noteq> OutOfFuel" and "n \<le> m"
  shows "ParseProgram m p = ParseProgram n p"
proof -
  have "programLoop (parseStatement n) n [] p \<noteq> OutOfFuel"
    using assms(1) by (auto simp: ParseProgram_def)
  then have "programLoop (parseStatement m) m [] p = programLoop (parseStatement n) n [] p"
    using parse_extends [OF assms(2)] assms(2) by (intro programLoop_extends) auto
  then show ?thesis by (simp add: ParseProgram_def)
qed

lemma parse_source_more_fuel:
  "parse_source n s \<noteq> OutOfFuel \<Longrightarrow> n \<le> m \<Longrightarrow> parse_source m s = parse_source n s"
  unfolding parse_source_def by (rule ParseProgram_more_fuel)

section \<open>Lexing a rendered text\<close>

lemma remaining_Cons:
  "position l < length (input l) \<Longrightarrow>
   remaining l = input l ! position l # drop (Suc (position l)) (input l)"
  by (simp add: remaining_def Cons_nth_drop_Suc)

lemma remaining_Nil: "length (input l) \<le> position l \<Longrightarrow> remaining l = []"
  by (simp add: remaining_def)

lemma ch_remaining:
  assumes "lexer_inv l"
  shows "ch l = (case remaining l of [] \<Rightarrow> NUL | c # cs \<Rightarrow> c)"
proof (cases "position l < length (input l)")
  case True
  then show ?thesis using assms by (simp add: remaining_Cons lexer_inv_def)
next
  case False
  then show ?thesis using assms by (simp add: remaining_Nil lexer_inv_def)
qed

lemma consumeNextChar_remaining:
  assumes "lexer_inv l"
  shows "lexer_inv (consumeNextChar l) \<and> remaining (consumeNextChar l) = tl (remaining l)
       \<and> input (consumeNextChar l) = input l"
proof -
  have p: "position (consumeNextChar l) = nextPosition l" and i: "input (consumeNextChar l) = input l"
    by (simp_all add: consumeNextChar_def Let_def)
  have "remaining (consumeNextChar l) = tl (remaining l)"
  proof (cases "position l < length (input l)")
    case True
    then have "nextPosition l = Suc (position l)" using assms by (simp add: lexer_inv_def)
    then show ?thesis using True by (simp add: remaining_Cons) (simp add: remaining_def p i)
  next
    case False
    then have "nextPosition l = length (input l)" using assms by (simp add: lexer_inv_def)
    then show ?thesis using False by (simp add: remaining_Nil) (simp add: remaining_def p i)
  qed
  then show ?thesis using lexer_inv_consumeNextChar [OF assms] by simp
qed

lemma peekNextChar_remaining:
  assumes "lexer_inv l" and "remaining l = c # cs"
  shows "peekNextChar l = (case cs of [] \<Rightarrow> NUL | d # ds \<Rightarrow> d)"
proof -
  have lt: "position l < length (input l)"
    using assms(2) by (cases "position l < length (input l)") (simp_all add: remaining_Nil)
  then have np: "nextPosition l = Suc (position l)" using assms(1) by (simp add: lexer_inv_def)
  have cs: "cs = drop (Suc (position l)) (input l)"
    using assms(2) lt by (simp add: remaining_Cons)
  show ?thesis
  proof (cases "Suc (position l) < length (input l)")
    case True
    then have "cs = input l ! Suc (position l) # drop (Suc (Suc (position l))) (input l)"
      using cs by (simp add: Cons_nth_drop_Suc)
    then show ?thesis using True np by (simp add: peekNextChar_def)
  next
    case False
    then have "cs = []" using cs by simp
    then show ?thesis using False np by (simp add: peekNextChar_def)
  qed
qed

lemma first_simps [simp]: "first [] = NUL" "first (c # cs) = c"
  by (simp_all add: first_def)

lemma ch_first: "lexer_inv l \<Longrightarrow> ch l = first (remaining l)"
  by (simp add: ch_remaining first_def)

lemma peek_first: "lexer_inv l \<Longrightarrow> remaining l = c # cs \<Longrightarrow> peekNextChar l = first cs"
  by (simp add: peekNextChar_remaining first_def)

lemma position_consumeNextChar:
  assumes "lexer_inv l" and "remaining l = c # cs"
  shows "position (consumeNextChar l) = Suc (position l)"
proof -
  have "position l < length (input l)"
    using assms(2) by (cases "position l < length (input l)") (simp_all add: remaining_Nil)
  then have "nextPosition l = Suc (position l)" using assms(1) by (simp add: lexer_inv_def)
  then show ?thesis by (simp add: consumeNextChar_def Let_def)
qed

lemma NextToken_skip_space:
  assumes "lexer_inv l" and "remaining l = CHR '' '' # rest"
  shows "NextToken l = NextToken (consumeNextChar l)"
proof -
  have "ch l = CHR '' ''" using assms by (simp add: ch_first)
  then have "consumeWhitespaces l = consumeWhitespaces (consumeNextChar l)"
    by (subst consumeWhitespaces.simps) (simp add: NUL_def isWhitespace_def)
  then show ?thesis by (simp add: NextToken_def)
qed

lemma consumeWhitespaces_none: "\<not> isWhitespace (ch l) \<Longrightarrow> consumeWhitespaces l = l"
  by (subst consumeWhitespaces.simps) simp

lemma consumeCharacters_run:
  "lexer_inv l \<Longrightarrow> remaining l = name @ rest \<Longrightarrow> list_all isCharacter name \<Longrightarrow>
   \<not> isCharacter (first rest) \<Longrightarrow>
   lexer_inv (consumeCharacters l) \<and> remaining (consumeCharacters l) = rest
   \<and> input (consumeCharacters l) = input l
   \<and> position (consumeCharacters l) = position l + length name"
proof (induction name arbitrary: l)
  case Nil
  then have "\<not> isCharacter (ch l)" by (simp add: ch_first)
  then have "consumeCharacters l = l" by (subst consumeCharacters.simps) simp
  then show ?case using Nil by simp
next
  case (Cons c name)
  have c: "isCharacter (ch l)" using Cons.prems by (simp add: ch_first)
  let ?l1 = "consumeNextChar l"
  have 1: "lexer_inv ?l1" "remaining ?l1 = name @ rest" "input ?l1 = input l"
    using consumeNextChar_remaining [OF Cons.prems(1)] Cons.prems(2) by simp_all
  have 2: "position ?l1 = Suc (position l)"
    using Cons.prems(1,2) by (simp add: position_consumeNextChar)
  have "consumeCharacters l = consumeCharacters ?l1"
    using c by (subst consumeCharacters.simps) simp
  then show ?case
    using Cons.IH [OF 1(1,2)] Cons.prems(3,4) 1(3) 2 by simp
qed

lemma consumeDigits_run:
  "lexer_inv l \<Longrightarrow> remaining l = lit @ rest \<Longrightarrow> list_all isDigit lit \<Longrightarrow>
   \<not> isDigit (first rest) \<Longrightarrow>
   lexer_inv (consumeDigits l) \<and> remaining (consumeDigits l) = rest
   \<and> input (consumeDigits l) = input l
   \<and> position (consumeDigits l) = position l + length lit"
proof (induction lit arbitrary: l)
  case Nil
  then have "\<not> isDigit (ch l)" by (simp add: ch_first)
  then have "consumeDigits l = l" by (subst consumeDigits.simps) simp
  then show ?case using Nil by simp
next
  case (Cons c lit)
  have c: "isDigit (ch l)" using Cons.prems by (simp add: ch_first)
  let ?l1 = "consumeNextChar l"
  have 1: "lexer_inv ?l1" "remaining ?l1 = lit @ rest" "input ?l1 = input l"
    using consumeNextChar_remaining [OF Cons.prems(1)] Cons.prems(2) by simp_all
  have 2: "position ?l1 = Suc (position l)"
    using Cons.prems(1,2) by (simp add: position_consumeNextChar)
  have "consumeDigits l = consumeDigits ?l1"
    using c by (subst consumeDigits.simps) simp
  then show ?case
    using Cons.IH [OF 1(1,2)] Cons.prems(3,4) 1(3) 2 by simp
qed

lemma slice_remaining:
  "remaining l = name @ rest \<Longrightarrow> slice (input l) (position l) (position l + length name) = name"
  unfolding slice_def remaining_def by simp

lemma isCharacter_nat:
  "isCharacter c \<longleftrightarrow> (97 \<le> (of_char c :: nat) \<and> (of_char c :: nat) \<le> 122)
     \<or> (65 \<le> (of_char c :: nat) \<and> (of_char c :: nat) \<le> 90)"
  by (simp add: isCharacter_def less_eq_char_def)

lemma isDigit_nat:
  "isDigit c \<longleftrightarrow> 48 \<le> (of_char c :: nat) \<and> (of_char c :: nat) \<le> 57"
  by (simp add: isDigit_def less_eq_char_def)

lemma isWhitespace_nat:
  "isWhitespace c \<Longrightarrow> (of_char c :: nat) \<le> 32"
  by (auto simp: isWhitespace_def)

lemma singleCharTokens_nat:
  "singleCharTokens c = Some t \<Longrightarrow> (of_char c :: nat) \<in> {33, 40, 41, 42, 43, 44, 45, 47, 59, 60, 61, 62, 123, 125}"
  by (auto simp: singleCharTokens_def split: if_splits)

lemma char_eq_nat: "c = d \<longleftrightarrow> (of_char c :: nat) = of_char d"
  by simp

lemma isCharacter_facts:
  assumes "isCharacter c"
  shows "c \<noteq> NUL" "\<not> isWhitespace c" "\<not> isDigit c" "GetSingleCharToken c = ILLEGAL"
    "string_of_byte c = [c]" "c \<noteq> CHR ''=''" "c \<noteq> CHR ''!''"
proof -
  have n: "(97 \<le> (of_char c :: nat) \<and> (of_char c :: nat) \<le> 122)
     \<or> (65 \<le> (of_char c :: nat) \<and> (of_char c :: nat) \<le> 90)"
    using assms by (simp add: isCharacter_nat)
  show "c \<noteq> NUL" using n by (auto simp: char_eq_nat NUL_def)
  show "\<not> isWhitespace c" using n isWhitespace_nat [of c] by auto
  show "\<not> isDigit c" using n by (auto simp: isDigit_nat)
  show "GetSingleCharToken c = ILLEGAL"
    using n singleCharTokens_nat [of c] by (cases "singleCharTokens c") (auto simp: GetSingleCharToken_def)
  show "string_of_byte c = [c]" using n by (auto simp: string_of_byte_def)
  show "c \<noteq> CHR ''=''" using n by (auto simp: char_eq_nat)
  show "c \<noteq> CHR ''!''" using n by (auto simp: char_eq_nat)
qed

lemma isDigit_facts:
  assumes "isDigit c"
  shows "c \<noteq> NUL" "\<not> isWhitespace c" "\<not> isCharacter c" "GetSingleCharToken c = ILLEGAL"
    "string_of_byte c = [c]" "c \<noteq> CHR ''=''" "c \<noteq> CHR ''!''"
proof -
  have n: "48 \<le> (of_char c :: nat) \<and> (of_char c :: nat) \<le> 57"
    using assms by (simp add: isDigit_nat)
  show "c \<noteq> NUL" using n by (auto simp: char_eq_nat NUL_def)
  show "\<not> isWhitespace c" using n isWhitespace_nat [of c] by auto
  show "\<not> isCharacter c" using n by (auto simp: isCharacter_nat)
  show "GetSingleCharToken c = ILLEGAL"
    using n singleCharTokens_nat [of c] by (cases "singleCharTokens c") (auto simp: GetSingleCharToken_def)
  show "string_of_byte c = [c]" using n by (auto simp: string_of_byte_def)
  show "c \<noteq> CHR ''=''" using n by (auto simp: char_eq_nat)
  show "c \<noteq> CHR ''!''" using n by (auto simp: char_eq_nat)
qed

lemma GetTwoCharToken_other:
  "c \<noteq> CHR ''='' \<Longrightarrow> c \<noteq> CHR ''!'' \<Longrightarrow> GetTwoCharToken (c # s) = ILLEGAL"
  by (simp add: GetTwoCharToken_def twoCharTokens_def)

lemma NextToken_identifier:
  assumes "lexer_inv l" and "remaining l = name @ rest" and "name \<noteq> []"
    and "list_all isCharacter name" and "\<not> isCharacter (first rest)"
  shows "\<exists>l'. NextToken l = (\<lparr>Type = GetTokenType name, Literal = name\<rparr>, l')
           \<and> lexer_inv l' \<and> remaining l' = rest"
proof -
  obtain c cs where name: "name = c # cs" using assms(3) by (cases name) auto
  then have c: "isCharacter c" and chl: "ch l = c" using assms by (simp_all add: ch_first)
  note f = isCharacter_facts [OF c]
  have ws: "consumeWhitespaces l = l" using f(2) chl by (simp add: consumeWhitespaces_none)
  have two: "GetTwoCharToken (string_of_byte c @ string_of_byte (peekNextChar l)) = ILLEGAL"
    using f(5,6,7) by (simp add: GetTwoCharToken_other)
  note run = consumeCharacters_run [OF assms(1,2,4,5)]
  have lit: "slice (input (consumeCharacters l)) (position l) (position (consumeCharacters l)) = name"
    using run slice_remaining [OF assms(2)] by simp
  have "NextToken l = (\<lparr>Type = GetTokenType name, Literal = name\<rparr>, consumeCharacters l)"
    using f c chl two lit
    by (simp add: NextToken_def ws lexlets_def eofLexlet_def twoCharLexlet_def
        singleCharLexlet_def literalsLexlet_def identifiersAndKeywordsLexlet_def Let_def)
  then show ?thesis using run by simp
qed

lemma NextToken_digits:
  assumes "lexer_inv l" and "remaining l = lit @ rest" and "lit \<noteq> []"
    and "list_all isDigit lit" and "\<not> isDigit (first rest)"
  shows "\<exists>l'. NextToken l = (\<lparr>Type = INT', Literal = lit\<rparr>, l')
           \<and> lexer_inv l' \<and> remaining l' = rest"
proof -
  obtain c cs where name: "lit = c # cs" using assms(3) by (cases lit) auto
  then have c: "isDigit c" and chl: "ch l = c" using assms by (simp_all add: ch_first)
  note f = isDigit_facts [OF c]
  have ws: "consumeWhitespaces l = l" using f(2) chl by (simp add: consumeWhitespaces_none)
  have two: "GetTwoCharToken (string_of_byte c @ string_of_byte (peekNextChar l)) = ILLEGAL"
    using f(5,6,7) by (simp add: GetTwoCharToken_other)
  note run = consumeDigits_run [OF assms(1,2,4,5)]
  have lit: "slice (input (consumeDigits l)) (position l) (position (consumeDigits l)) = lit"
    using run slice_remaining [OF assms(2)] by simp
  have "NextToken l = (\<lparr>Type = INT', Literal = lit\<rparr>, consumeDigits l)"
    using f c chl two lit
    by (simp add: NextToken_def ws lexlets_def eofLexlet_def twoCharLexlet_def
        singleCharLexlet_def literalsLexlet_def Let_def)
  then show ?thesis using run by simp
qed

text \<open>The one-byte tokens of a rendered expression: parentheses and operators.\<close>

lemma punctuation_facts:
  assumes "punctuation c"
  shows "c \<noteq> NUL" "\<not> isWhitespace c" "string_of_byte c = [c]" "singleCharTokens c \<noteq> None"
  using assms
  by (auto simp: punctuation_def NUL_def isWhitespace_def string_of_byte_def singleCharTokens_def)

lemma NextToken_single:
  assumes "lexer_inv l" and "remaining l = c # rest" and "punctuation c"
    and "(c \<noteq> CHR ''='' \<and> c \<noteq> CHR ''!'') \<or> first rest \<noteq> CHR ''=''"
  shows "\<exists>l'. NextToken l = (\<lparr>Type = GetSingleCharToken c, Literal = [c]\<rparr>, l')
           \<and> lexer_inv l' \<and> remaining l' = rest"
proof -
  have chl: "ch l = c" using assms by (simp add: ch_first)
  have pk: "peekNextChar l = first rest" using assms(1,2) by (rule peek_first)
  note f = punctuation_facts [OF assms(3)]
  have ws: "consumeWhitespaces l = l" using f(2) chl by (simp add: consumeWhitespaces_none)
  have two: "GetTwoCharToken (string_of_byte c @ string_of_byte (first rest)) = ILLEGAL"
  proof (cases "c \<noteq> CHR ''='' \<and> c \<noteq> CHR ''!''")
    case True
    then show ?thesis using f(3) by (simp add: GetTwoCharToken_other)
  next
    case False
    then have "first rest \<noteq> CHR ''=''" using assms(4) by blast
    then show ?thesis
      using f(3) by (auto simp: GetTwoCharToken_def twoCharTokens_def string_of_byte_def)
  qed
  have one: "GetSingleCharToken c \<noteq> ILLEGAL"
    using f(4) by (auto simp: GetSingleCharToken_def singleCharTokens_def split: if_splits)
  have "NextToken l = (\<lparr>Type = GetSingleCharToken c, Literal = [c]\<rparr>, consumeNextChar l)"
    using f chl two one pk
    by (simp add: NextToken_def ws lexlets_def eofLexlet_def twoCharLexlet_def
        singleCharLexlet_def Let_def)
  then show ?thesis using consumeNextChar_remaining [OF assms(1)] assms(2) by simp
qed

lemma NextToken_two:
  assumes "lexer_inv l" and "remaining l = c # CHR ''='' # rest"
    and "c = CHR ''='' \<or> c = CHR ''!''"
  shows "\<exists>l'. NextToken l = (\<lparr>Type = GetTwoCharToken [c, CHR ''=''], Literal = [c, CHR ''='']\<rparr>, l')
           \<and> lexer_inv l' \<and> remaining l' = rest"
proof -
  have chl: "ch l = c" using assms by (simp add: ch_first)
  have pk: "peekNextChar l = CHR ''=''" using peek_first [OF assms(1,2)] by simp
  have f: "c \<noteq> NUL" "\<not> isWhitespace c" "string_of_byte c = [c]"
    "string_of_byte (CHR ''='') = ''=''" "GetTwoCharToken [c, CHR ''=''] \<noteq> ILLEGAL"
    using assms(3)
    by (auto simp: NUL_def isWhitespace_def string_of_byte_def GetTwoCharToken_def twoCharTokens_def)
  have ws: "consumeWhitespaces l = l" using f(2) chl by (simp add: consumeWhitespaces_none)
  have "NextToken l = (\<lparr>Type = GetTwoCharToken [c, CHR ''=''], Literal = [c, CHR ''='']\<rparr>,
      consumeNextChar (consumeNextChar l))"
    using f chl pk
    by (simp add: NextToken_def ws lexlets_def eofLexlet_def twoCharLexlet_def Let_def)
  moreover have "lexer_inv (consumeNextChar (consumeNextChar l))
      \<and> remaining (consumeNextChar (consumeNextChar l)) = rest"
    using consumeNextChar_remaining [OF assms(1)] assms(2)
      consumeNextChar_remaining [of "consumeNextChar l"] by simp
  ultimately show ?thesis by simp
qed

lemma NextToken_end:
  assumes "lexer_inv l" and "remaining l = []"
  shows "NextToken l = (\<lparr>Type = EOF, Literal = []\<rparr>, l)"
  using assms by (intro NextToken_at_sentinel) (simp add: ch_first)

lemma lexes_append: "lexes l ts1 l1 \<Longrightarrow> lexes l1 ts2 l2 \<Longrightarrow> lexes l (ts1 @ ts2) l2"
  by (induction rule: lexes.induct) (auto intro: lexes.intros)

lemma lex_all_lexes: "lexes l ts l' \<Longrightarrow> lex_all l = ts @ lex_all l'"
proof (induction rule: lexes.induct)
  case (stop l)
  then show ?case by simp
next
  case (more l tok l1 toks l')
  then show ?case by (subst lex_all.simps) simp
qed

lemma lexes_to_token:
  assumes "\<exists>l'. NextToken l = (tok, l') \<and> lexer_inv l' \<and> remaining l' = mid"
    and "Type tok \<noteq> EOF"
    and "\<And>l1. lexer_inv l1 \<Longrightarrow> remaining l1 = mid \<Longrightarrow> lexes_to l1 toks rest"
  shows "lexes_to l (tok # toks) rest"
proof -
  from assms(1) obtain l1 where 1: "NextToken l = (tok, l1)" "lexer_inv l1" "remaining l1 = mid"
    by auto
  from assms(3) [OF 1(2,3)] obtain l' where "lexes l1 toks l'" "lexer_inv l'" "remaining l' = rest"
    by (auto simp: lexes_to_def)
  then show ?thesis using 1(1) assms(2) by (auto simp: lexes_to_def intro: lexes.more)
qed

lemma lexes_to_Nil: "lexer_inv l \<Longrightarrow> remaining l = rest \<Longrightarrow> lexes_to l [] rest"
  by (auto simp: lexes_to_def intro: lexes.stop)

lemma lexes_to_append:
  assumes "lexes_to l ts1 mid"
    and "\<And>l1. lexer_inv l1 \<Longrightarrow> remaining l1 = mid \<Longrightarrow> lexes_to l1 ts2 rest"
  shows "lexes_to l (ts1 @ ts2) rest"
proof -
  from assms(1) obtain l1 where 1: "lexes l ts1 l1" "lexer_inv l1" "remaining l1 = mid"
    by (auto simp: lexes_to_def)
  from assms(2) [OF 1(2,3)] obtain l' where "lexes l1 ts2 l'" "lexer_inv l'" "remaining l' = rest"
    by (auto simp: lexes_to_def)
  then show ?thesis using 1(1) by (auto simp: lexes_to_def intro: lexes_append)
qed

lemma lexes_to_skip_space:
  assumes "lexer_inv l" and "remaining l = CHR '' '' # mid"
    and "\<And>l1. lexer_inv l1 \<Longrightarrow> remaining l1 = mid \<Longrightarrow> lexes_to l1 (t # ts) rest"
  shows "lexes_to l (t # ts) rest"
proof -
  let ?l1 = "consumeNextChar l"
  have 1: "lexer_inv ?l1" "remaining ?l1 = mid"
    using consumeNextChar_remaining [OF assms(1)] assms(2) by simp_all
  from assms(3) [OF 1] obtain l' where l': "lexes ?l1 (t # ts) l'" "lexer_inv l'" "remaining l' = rest"
    by (auto simp: lexes_to_def)
  from l'(1) obtain l2 where "NextToken ?l1 = (t, l2)" "Type t \<noteq> EOF" "lexes l2 ts l'"
    by (auto elim: lexes.cases)
  then have "lexes l (t # ts) l'"
    using NextToken_skip_space [OF assms(1,2)] by (auto intro: lexes.more)
  then show ?thesis using l'(2,3) by (auto simp: lexes_to_def)
qed

lemma single_tokens:
  "GetSingleCharToken CHR ''('' = LPAREN" "GetSingleCharToken CHR '')'' = RPAREN"
  "GetSingleCharToken CHR ''!'' = BANG" "GetSingleCharToken CHR ''-'' = MINUS"
  "GetSingleCharToken CHR ''+'' = PLUS" "GetSingleCharToken CHR ''*'' = ASTERISK"
  "GetSingleCharToken CHR ''/'' = SLASH" "GetSingleCharToken CHR ''<'' = LT"
  "GetSingleCharToken CHR ''>'' = GT"
  by (simp_all add: GetSingleCharToken_def singleCharTokens_def)

lemma two_tokens:
  "GetTwoCharToken ''=='' = EQ" "GetTwoCharToken ''!='' = NOTEQ"
  by (simp_all add: GetTwoCharToken_def twoCharTokens_def)

lemma punctuation_simps:
  "punctuation CHR ''(''" "punctuation CHR '')''" "punctuation CHR ''!''" "punctuation CHR ''-''"
  "punctuation CHR ''+''" "punctuation CHR ''*''" "punctuation CHR ''/''" "punctuation CHR ''<''"
  "punctuation CHR ''>''"
  by (simp_all add: punctuation_def)

lemma lex_single:
  assumes "lexer_inv l" and "remaining l = c # mid" and "punctuation c"
    and "c \<noteq> CHR ''=''" and "c \<noteq> CHR ''!''" and "GetSingleCharToken c = t"
  shows "\<exists>l'. NextToken l = (\<lparr>Type = t, Literal = [c]\<rparr>, l') \<and> lexer_inv l' \<and> remaining l' = mid"
proof -
  have "(c \<noteq> CHR ''='' \<and> c \<noteq> CHR ''!'') \<or> first mid \<noteq> CHR ''=''" using assms(4,5) by simp
  from NextToken_single [OF assms(1,2,3) this] show ?thesis unfolding assms(6) .
qed

lemma lex_lparen:
  assumes "lexer_inv l" and "remaining l = CHR ''('' # mid"
  shows "\<exists>l'. NextToken l = (lparen, l') \<and> lexer_inv l' \<and> remaining l' = mid"
  unfolding lparen_def using assms
  by (rule lex_single) (simp_all add: punctuation_simps single_tokens)

lemma lex_rparen:
  assumes "lexer_inv l" and "remaining l = CHR '')'' # mid"
  shows "\<exists>l'. NextToken l = (rparen, l') \<and> lexer_inv l' \<and> remaining l' = mid"
  unfolding rparen_def using assms
  by (rule lex_single) (simp_all add: punctuation_simps single_tokens)

lemma lex_bang:
  assumes "lexer_inv l" and "remaining l = CHR ''!'' # mid" and "first mid \<noteq> CHR ''=''"
  shows "\<exists>l'. NextToken l = (\<lparr>Type = BANG, Literal = ''!''\<rparr>, l') \<and> lexer_inv l'
           \<and> remaining l' = mid"
proof -
  have "(CHR ''!'' \<noteq> CHR ''='' \<and> CHR ''!'' \<noteq> CHR ''!'') \<or> first mid \<noteq> CHR ''=''"
    using assms(3) by simp
  from NextToken_single [OF assms(1,2) punctuation_simps(3) this] show ?thesis
    unfolding single_tokens .
qed

lemma prefix_operators_cases:
  assumes "tok \<in> set prefix_operators"
  obtains "tok = \<lparr>Type = BANG, Literal = ''!''\<rparr>" | "tok = \<lparr>Type = MINUS, Literal = ''-''\<rparr>"
  using assms unfolding prefix_operators_def by simp blast

lemma infix_operators_cases:
  assumes "tok \<in> set infix_operators"
  obtains "tok = \<lparr>Type = PLUS, Literal = ''+''\<rparr>" | "tok = \<lparr>Type = MINUS, Literal = ''-''\<rparr>"
    | "tok = \<lparr>Type = ASTERISK, Literal = ''*''\<rparr>" | "tok = \<lparr>Type = SLASH, Literal = ''/''\<rparr>"
    | "tok = \<lparr>Type = LT, Literal = ''<''\<rparr>" | "tok = \<lparr>Type = GT, Literal = ''>''\<rparr>"
    | "tok = \<lparr>Type = EQ, Literal = ''==''\<rparr>" | "tok = \<lparr>Type = NOTEQ, Literal = ''!=''\<rparr>"
  using assms unfolding infix_operators_def by simp blast

lemma lex_prefix_operator:
  assumes "tok \<in> set prefix_operators" and "lexer_inv l" and "remaining l = Literal tok @ mid"
    and "first mid \<noteq> CHR ''=''"
  shows "\<exists>l'. NextToken l = (tok, l') \<and> lexer_inv l' \<and> remaining l' = mid"
  using assms(1)
proof (cases rule: prefix_operators_cases)
  case 1
  show ?thesis unfolding 1 using assms(2)
    by (rule lex_bang) (use assms(3,4) in \<open>simp_all add: 1\<close>)
next
  case 2
  show ?thesis unfolding 2 using assms(2)
    by (rule lex_single) (use assms(3) in \<open>simp_all add: 2 punctuation_simps single_tokens\<close>)
qed

lemma lex_infix_operator:
  assumes "tok \<in> set infix_operators" and "lexer_inv l"
    and "remaining l = Literal tok @ mid"
  shows "\<exists>l'. NextToken l = (tok, l') \<and> lexer_inv l' \<and> remaining l' = mid"
  using assms(1)
proof (cases rule: infix_operators_cases)
  case 1
  show ?thesis unfolding 1 using assms(2)
    by (rule lex_single) (use assms(3) in \<open>simp_all add: 1 punctuation_simps single_tokens\<close>)
next
  case 2
  show ?thesis unfolding 2 using assms(2)
    by (rule lex_single) (use assms(3) in \<open>simp_all add: 2 punctuation_simps single_tokens\<close>)
next
  case 3
  show ?thesis unfolding 3 using assms(2)
    by (rule lex_single) (use assms(3) in \<open>simp_all add: 3 punctuation_simps single_tokens\<close>)
next
  case 4
  show ?thesis unfolding 4 using assms(2)
    by (rule lex_single) (use assms(3) in \<open>simp_all add: 4 punctuation_simps single_tokens\<close>)
next
  case 5
  show ?thesis unfolding 5 using assms(2)
    by (rule lex_single) (use assms(3) in \<open>simp_all add: 5 punctuation_simps single_tokens\<close>)
next
  case 6
  show ?thesis unfolding 6 using assms(2)
    by (rule lex_single) (use assms(3) in \<open>simp_all add: 6 punctuation_simps single_tokens\<close>)
next
  case 7
  have r: "remaining l = CHR ''='' # CHR ''='' # mid" using assms(3) by (simp add: 7)
  have "CHR ''='' = CHR ''='' \<or> CHR ''='' = CHR ''!''" by simp
  from NextToken_two [OF assms(2) r this] show ?thesis unfolding 7 two_tokens .
next
  case 8
  have r: "remaining l = CHR ''!'' # CHR ''='' # mid" using assms(3) by (simp add: 8)
  have "CHR ''!'' = CHR ''='' \<or> CHR ''!'' = CHR ''!''" by simp
  from NextToken_two [OF assms(2) r this] show ?thesis unfolding 8 two_tokens .
qed

lemma operator_not_EOF:
  "tok \<in> set prefix_operators \<Longrightarrow> Type tok \<noteq> EOF"
  "tok \<in> set infix_operators \<Longrightarrow> Type tok \<noteq> EOF"
  by (auto simp: prefix_operators_def infix_operators_def)

lemma boundary_simps [simp]:
  "boundary []" "boundary (CHR '')'' # s)" "boundary (CHR '' '' # s)"
  by (simp_all add: boundary_def isCharacter_nat isDigit_nat NUL_def)

lemma lexes_asD:
  "lexes_as src toks \<Longrightarrow> lexer_inv l \<Longrightarrow> remaining l = src @ rest \<Longrightarrow> boundary rest \<Longrightarrow>
   lexes_to l toks rest"
  by (simp add: lexes_as_def)

lemma first_append: "src \<noteq> [] \<Longrightarrow> first (src @ rest) = first src"
  by (cases src) simp_all

lemma lexes_as_word:
  assumes "name \<noteq> []" and "list_all isCharacter name"
  shows "lexes_as name [\<lparr>Type = GetTokenType name, Literal = name\<rparr>]"
proof -
  obtain c cs where n: "name = c # cs" using assms(1) by (cases name) auto
  then have "isCharacter c" using assms(2) by simp
  then have "first name \<noteq> CHR ''=''" using n isCharacter_facts(6) by simp
  moreover have "Type \<lparr>Type = GetTokenType name, Literal = name\<rparr> \<noteq> EOF"
    by (auto simp: GetTokenType_def keywordTable_def)
  moreover have "lexes_to l [\<lparr>Type = GetTokenType name, Literal = name\<rparr>] rest"
    if "lexer_inv l" "remaining l = name @ rest" "boundary rest" for l rest
  proof (rule lexes_to_token)
    show "\<exists>l'. NextToken l = (\<lparr>Type = GetTokenType name, Literal = name\<rparr>, l')
        \<and> lexer_inv l' \<and> remaining l' = rest"
      using that assms by (intro NextToken_identifier) (simp_all add: boundary_def)
    show "Type \<lparr>Type = GetTokenType name, Literal = name\<rparr> \<noteq> EOF" by fact
    show "lexes_to l1 [] rest" if "lexer_inv l1" "remaining l1 = rest" for l1
      using that by (rule lexes_to_Nil)
  qed
  ultimately show ?thesis using assms(1) by (simp add: lexes_as_def)
qed

lemma lexes_as_number:
  assumes "lit \<noteq> []" and "list_all isDigit lit"
  shows "lexes_as lit [\<lparr>Type = INT', Literal = lit\<rparr>]"
proof -
  obtain c cs where n: "lit = c # cs" using assms(1) by (cases lit) auto
  then have "isDigit c" using assms(2) by simp
  then have "first lit \<noteq> CHR ''=''" using n isDigit_facts(6) by simp
  moreover have "lexes_to l [\<lparr>Type = INT', Literal = lit\<rparr>] rest"
    if "lexer_inv l" "remaining l = lit @ rest" "boundary rest" for l rest
  proof (rule lexes_to_token)
    show "\<exists>l'. NextToken l = (\<lparr>Type = INT', Literal = lit\<rparr>, l')
        \<and> lexer_inv l' \<and> remaining l' = rest"
      using that assms by (intro NextToken_digits) (simp_all add: boundary_def)
    show "Type \<lparr>Type = INT', Literal = lit\<rparr> \<noteq> EOF" by simp
    show "lexes_to l1 [] rest" if "lexer_inv l1" "remaining l1 = rest" for l1
      using that by (rule lexes_to_Nil)
  qed
  ultimately show ?thesis using assms(1) by (simp add: lexes_as_def)
qed

lemma lexes_as_unary:
  assumes "tok \<in> set prefix_operators" and "lexes_as tb toks"
  shows "lexes_as (''('' @ Literal tok @ tb @ '')'') (lparen # tok # toks @ [rparen])"
proof -
  have tb: "tb \<noteq> []" "first tb \<noteq> CHR ''=''" using assms(2) by (simp_all add: lexes_as_def)
  have "lexes_to l (lparen # tok # toks @ [rparen]) rest"
    if l: "lexer_inv l" "remaining l = (''('' @ Literal tok @ tb @ '')'') @ rest" for l rest
  proof (rule lexes_to_token)
    show "\<exists>l'. NextToken l = (lparen, l') \<and> lexer_inv l'
        \<and> remaining l' = Literal tok @ tb @ CHR '')'' # rest"
      using l by (intro lex_lparen) simp_all
    show "Type lparen \<noteq> EOF" by (simp add: lparen_def)
  next
    fix l1 assume l1: "lexer_inv l1" "remaining l1 = Literal tok @ tb @ CHR '')'' # rest"
    show "lexes_to l1 (tok # toks @ [rparen]) rest"
    proof (rule lexes_to_token)
      show "\<exists>l'. NextToken l1 = (tok, l') \<and> lexer_inv l' \<and> remaining l' = tb @ CHR '')'' # rest"
        using assms(1) l1 tb by (intro lex_prefix_operator) (simp_all add: first_append)
      show "Type tok \<noteq> EOF" using assms(1) by (rule operator_not_EOF)
    next
      fix l2 assume l2: "lexer_inv l2" "remaining l2 = tb @ CHR '')'' # rest"
      show "lexes_to l2 (toks @ [rparen]) rest"
      proof (rule lexes_to_append)
        show "lexes_to l2 toks (CHR '')'' # rest)"
          using assms(2) l2 by (rule lexes_asD) simp
      next
        fix l3 assume l3: "lexer_inv l3" "remaining l3 = CHR '')'' # rest"
        show "lexes_to l3 [rparen] rest"
        proof (rule lexes_to_token)
          show "\<exists>l'. NextToken l3 = (rparen, l') \<and> lexer_inv l' \<and> remaining l' = rest"
            using l3 by (rule lex_rparen)
          show "Type rparen \<noteq> EOF" by (simp add: rparen_def)
          show "lexes_to l4 [] rest" if "lexer_inv l4" "remaining l4 = rest" for l4
            using that by (rule lexes_to_Nil)
        qed
      qed
    qed
  qed
  then show ?thesis by (simp add: lexes_as_def)
qed

lemma lexes_as_binary:
  assumes "tok \<in> set infix_operators" and "lexes_as ta toksl" and "lexes_as tb toksr"
  shows "lexes_as (''('' @ ta @ ('' '' @ Literal tok @ '' '') @ tb @ '')'')
           (lparen # toksl @ tok # toksr @ [rparen])"
proof -
  obtain t ts where toksr: "toksr = t # ts"
    using assms(3) by (cases toksr) (auto simp: lexes_as_def)
  have "lexes_to l (lparen # toksl @ tok # toksr @ [rparen]) rest"
    if l: "lexer_inv l"
      "remaining l = (''('' @ ta @ ('' '' @ Literal tok @ '' '') @ tb @ '')'') @ rest" for l rest
  proof (rule lexes_to_token)
    show "\<exists>l'. NextToken l = (lparen, l') \<and> lexer_inv l'
        \<and> remaining l' = ta @ CHR '' '' # Literal tok @ CHR '' '' # tb @ CHR '')'' # rest"
      using l by (intro lex_lparen) simp_all
    show "Type lparen \<noteq> EOF" by (simp add: lparen_def)
  next
    fix l1 assume l1: "lexer_inv l1"
      "remaining l1 = ta @ CHR '' '' # Literal tok @ CHR '' '' # tb @ CHR '')'' # rest"
    show "lexes_to l1 (toksl @ tok # toksr @ [rparen]) rest"
    proof (rule lexes_to_append)
      show "lexes_to l1 toksl (CHR '' '' # Literal tok @ CHR '' '' # tb @ CHR '')'' # rest)"
        using assms(2) l1 by (rule lexes_asD) simp
    next
      fix l2 assume l2: "lexer_inv l2"
        "remaining l2 = CHR '' '' # Literal tok @ CHR '' '' # tb @ CHR '')'' # rest"
      show "lexes_to l2 (tok # toksr @ [rparen]) rest"
        using l2
      proof (rule lexes_to_skip_space)
        fix l3 assume l3: "lexer_inv l3"
          "remaining l3 = Literal tok @ CHR '' '' # tb @ CHR '')'' # rest"
        show "lexes_to l3 (tok # toksr @ [rparen]) rest"
        proof (rule lexes_to_token)
          show "\<exists>l'. NextToken l3 = (tok, l') \<and> lexer_inv l'
              \<and> remaining l' = CHR '' '' # tb @ CHR '')'' # rest"
            using assms(1) l3 by (rule lex_infix_operator)
          show "Type tok \<noteq> EOF" using assms(1) by (rule operator_not_EOF)
        next
          fix l4 assume l4: "lexer_inv l4" "remaining l4 = CHR '' '' # tb @ CHR '')'' # rest"
          have "lexes_to l4 (t # ts @ [rparen]) rest"
            using l4
          proof (rule lexes_to_skip_space)
            fix l5 assume l5: "lexer_inv l5" "remaining l5 = tb @ CHR '')'' # rest"
            have "lexes_to l5 (toksr @ [rparen]) rest"
            proof (rule lexes_to_append)
              show "lexes_to l5 toksr (CHR '')'' # rest)"
                using assms(3) l5 by (rule lexes_asD) simp
            next
              fix l6 assume l6: "lexer_inv l6" "remaining l6 = CHR '')'' # rest"
              show "lexes_to l6 [rparen] rest"
              proof (rule lexes_to_token)
                show "\<exists>l'. NextToken l6 = (rparen, l') \<and> lexer_inv l' \<and> remaining l' = rest"
                  using l6 by (rule lex_rparen)
                show "Type rparen \<noteq> EOF" by (simp add: rparen_def)
                show "lexes_to l7 [] rest" if "lexer_inv l7" "remaining l7 = rest" for l7
                  using that by (rule lexes_to_Nil)
              qed
            qed
            then show "lexes_to l5 (t # ts @ [rparen]) rest" by (simp add: toksr)
          qed
          then show "lexes_to l4 (toksr @ [rparen]) rest" by (simp add: toksr)
        qed
      qed
    qed
  qed
  then show ?thesis by (simp add: lexes_as_def)
qed

lemma expr_tokens_unary:
  "expr_tokens (PrefixExpression tok operator (Some right))
     = lparen # tok # expr_tokens right @ [rparen]"
  by (simp add: lparen_def rparen_def)

lemma expr_tokens_binary:
  "expr_tokens (InfixExpression tok (Some left) operator (Some right))
     = lparen # expr_tokens left @ tok # expr_tokens right @ [rparen]"
  by (simp add: lparen_def rparen_def)

lemma GetTokenType_name: "keywordTable name = None \<Longrightarrow> GetTokenType name = IDENT"
  by (simp add: GetTokenType_def)

lemma lexes_as_true: "lexes_as ''true'' [\<lparr>Type = TRUE, Literal = ''true''\<rparr>]"
proof -
  have "lexes_as ''true'' [\<lparr>Type = GetTokenType ''true'', Literal = ''true''\<rparr>]"
    by (rule lexes_as_word) (simp_all add: isCharacter_nat)
  then show ?thesis by (simp add: GetTokenType_def keywordTable_def)
qed

lemma lexes_as_false: "lexes_as ''false'' [\<lparr>Type = FALSE, Literal = ''false''\<rparr>]"
proof -
  have "lexes_as ''false'' [\<lparr>Type = GetTokenType ''false'', Literal = ''false''\<rparr>]"
    by (rule lexes_as_word) (simp_all add: isCharacter_nat)
  then show ?thesis by (simp add: GetTokenType_def keywordTable_def)
qed

lemma lexes_as_atom:
  assumes "atom t e"
  shows "Expression_String e = Some (Literal t)" "expr_tokens e = [t]" "lexes_as (Literal t) [t]"
    "Literal t \<noteq> []"
proof -
  show "Expression_String e = Some (Literal t)" using assms by cases simp_all
  show "expr_tokens e = [t]" using assms by cases simp_all
  show "lexes_as (Literal t) [t]" using assms
  proof cases
    case (name name)
    then show ?thesis using lexes_as_word [of name] by (simp add: GetTokenType_name)
  next
    case (literal lit v)
    then show ?thesis using lexes_as_number [of lit] by simp
  next
    case bool_true
    then show ?thesis using lexes_as_true by simp
  next
    case bool_false
    then show ?thesis using lexes_as_false by simp
  qed
  show "Literal t \<noteq> []" using assms by cases simp_all
qed

lemma lex_rendered:
  "operator_expr e \<Longrightarrow> \<exists>src. Expression_String e = Some src \<and> lexes_as src (expr_tokens e)"
proof (induction rule: operator_expr.induct)
  case (leaf t e)
  then show ?case using lexes_as_atom(1,2,3) [of t e] by simp
next
  case (unary tok right)
  then obtain tb where tb: "Expression_String right = Some tb" "lexes_as tb (expr_tokens right)"
    by auto
  have "Expression_String (PrefixExpression tok (Literal tok) (Some right))
      = Some (''('' @ Literal tok @ tb @ '')'')"
    by (simp add: tb(1) on_interface_def)
  moreover have "lexes_as (''('' @ Literal tok @ tb @ '')'')
      (expr_tokens (PrefixExpression tok (Literal tok) (Some right)))"
    unfolding expr_tokens_unary using unary.hyps(1) tb(2) by (rule lexes_as_unary)
  ultimately show ?case by blast
next
  case (binary tok left right)
  then obtain ta tb where ta: "Expression_String left = Some ta" "lexes_as ta (expr_tokens left)"
    and tb: "Expression_String right = Some tb" "lexes_as tb (expr_tokens right)"
    by auto
  have "Expression_String (InfixExpression tok (Some left) (Literal tok) (Some right))
      = Some (''('' @ ta @ ('' '' @ Literal tok @ '' '') @ tb @ '')'')"
    by (simp add: ta(1) tb(1) on_interface_def)
  moreover have "lexes_as (''('' @ ta @ ('' '' @ Literal tok @ '' '') @ tb @ '')'')
      (expr_tokens (InfixExpression tok (Some left) (Literal tok) (Some right)))"
    unfolding expr_tokens_binary using binary.hyps(1) ta(2) tb(2) by (rule lexes_as_binary)
  ultimately show ?case by blast
qed

section \<open>The tokens a parser has still to read\<close>

lemma remaining_New: "remaining (Lexer_New s) = s"
  by (simp add: remaining_def Lexer_New_def consumeNextChar_def Let_def)

lemma lex_all_end: "lexer_inv l \<Longrightarrow> remaining l = [] \<Longrightarrow> lex_all l = []"
  by (subst lex_all.simps) (simp add: NextToken_end)

lemma lex_all_rendered:
  assumes "lexes_as src toks"
  shows "lex_all (Lexer_New src) = toks"
proof -
  have "lexes_to (Lexer_New src) toks []"
    using assms by (rule lexes_asD) (simp_all add: lexer_inv_New remaining_New)
  then obtain l' where "lexes (Lexer_New src) toks l'" "lexer_inv l'" "remaining l' = []"
    by (auto simp: lexes_to_def)
  then show ?thesis using lex_all_lexes [of "Lexer_New src" toks l'] by (simp add: lex_all_end)
qed

lemma pending_New: "pending (Parser_New l) = lex_all l"
proof -
  obtain t1 l1 where 1: "NextToken l = (t1, l1)" by (cases "NextToken l")
  obtain t2 l2 where 2: "NextToken l1 = (t2, l2)" by (cases "NextToken l1")
  have "Parser_New l = \<lparr>lexer = l2, currentToken = t1, nextToken = t2, errors = []\<rparr>"
    by (simp add: Parser_New_def consumeNextToken_def zeroToken_def 1 2)
  moreover have "lex_all l = (if Type t1 = EOF then [] else t1 # lex_all l1)"
    by (subst lex_all.simps) (simp add: 1)
  moreover have "lex_all l1 = (if Type t2 = EOF then [] else t2 # lex_all l2)"
    by (subst lex_all.simps) (simp add: 2)
  ultimately show ?thesis by (simp add: pending_def)
qed

lemma errors_New: "errors (Parser_New l) = []"
  by (simp add: Parser_New_def consumeNextToken_def zeroToken_def split: prod.splits)

lemma pending_Nil: "pending p = [] \<longleftrightarrow> Type (currentToken p) = EOF"
  by (simp add: pending_def)

lemma pending_Cons:
  assumes "pending p = t # ts"
  shows "currentToken p = t" "Type t \<noteq> EOF" "pending (consumeNextToken p) = ts"
    "errors (consumeNextToken p) = errors p"
proof -
  have c: "Type (currentToken p) \<noteq> EOF" using assms by (auto simp: pending_def)
  then show t: "currentToken p = t" using assms by (simp add: pending_def)
  show "Type t \<noteq> EOF" using c t by simp
  obtain t1 l1 where 1: "NextToken (lexer p) = (t1, l1)" by (cases "NextToken (lexer p)")
  have "lex_all (lexer p) = (if Type t1 = EOF then [] else t1 # lex_all l1)"
    by (subst lex_all.simps) (simp add: 1)
  then show "pending (consumeNextToken p) = ts"
    using assms c by (auto simp: pending_def consumeNextToken_def 1 split: if_splits)
  show "errors (consumeNextToken p) = errors p"
    using c by (simp add: consumeNextToken_def 1)
qed

section \<open>Parsing a rendered operator expression\<close>

lemma parses_asD:
  assumes "parses_as H e" and "H \<le> m" and "pending p = expr_tokens e @ rest"
  obtains p' where "pending p' = rest" and "errors p' = errors p"
    and "parseExpression (Suc m) prec p = infixLoop (parseExpression m) m prec (Some e) p'"
  using assms unfolding parses_as_def by blast

lemma consumeToken_pending:
  assumes "pending p = t # ts" and "Type t = ty"
  shows "pending (consumeToken ty p) = ts" "errors (consumeToken ty p) = errors p"
  using pending_Cons [OF assms(1)] assms(2) by (simp_all add: consumeToken_def)

lemma unfold_expr:
  assumes "pending p = t # ts" and "prefixParsers (Type t) = Some fn"
  shows "parseExpression (Suc m) prec p =
     bind (prefixParser (parseExpression m) (parseStatement m) m fn p)
       (\<lambda>left p1. infixLoop (parseExpression m) m prec left p1)"
  using pending_Cons(1) [OF assms(1)] assms(2)
  by (simp add: parseExpression_Suc parseExpressionBody_def)

lemma infixLoop_stop:
  "LOWEST \<le> prec \<Longrightarrow> getCurrentPrecedence p = LOWEST \<Longrightarrow>
   infixLoop pe (Suc k) prec left p = Done left p"
  by simp

lemma at_rparen: "pending p = rparen # rest \<Longrightarrow> getCurrentPrecedence p = LOWEST"
  using pending_Cons(1) [of p rparen rest]
  by (simp add: getCurrentPrecedence_def precedences_def rparen_def)

lemma at_end:
  assumes "pending p = []"
  shows "getCurrentPrecedence p = LOWEST" "Type (currentToken p) \<noteq> SEMICOLON"
  using assms by (simp_all add: pending_Nil getCurrentPrecedence_def precedences_def)

lemma parse_atom:
  assumes "atom t e" and p: "pending p = t # rest"
  shows "parseExpression (Suc m) prec p
      = infixLoop (parseExpression m) m prec (Some e) (consumeNextToken p)"
proof -
  note c = pending_Cons(1) [OF p]
  from assms(1) show ?thesis
  proof cases
    case (name name)
    have "prefixParsers (Type t) = Some ParseIdentifier" by (simp add: name prefixParsers_def)
    from unfold_expr [OF p this] show ?thesis using c by (simp add: name parseIdentifier_def)
  next
    case (literal lit v)
    have "prefixParsers (Type t) = Some ParseIntegerLiteral"
      by (simp add: literal prefixParsers_def)
    from unfold_expr [OF p this] show ?thesis
      using c literal(5) by (simp add: literal(1,2) parseIntegerLiteral_def)
  next
    case bool_true
    have "prefixParsers (Type t) = Some ParseBooleanLiteral"
      by (simp add: bool_true prefixParsers_def)
    from unfold_expr [OF p this] show ?thesis
      using c by (simp add: bool_true parseBooleanLiteral_def)
  next
    case bool_false
    have "prefixParsers (Type t) = Some ParseBooleanLiteral"
      by (simp add: bool_false prefixParsers_def)
    from unfold_expr [OF p this] show ?thesis
      using c by (simp add: bool_false parseBooleanLiteral_def)
  qed
qed

lemma parses_atom:
  assumes "atom t e"
  shows "parses_as 0 e"
  unfolding parses_as_def
proof (intro allI impI)
  fix m prec p rest
  assume "pending p = expr_tokens e @ rest"
  then have p: "pending p = t # rest" by (simp add: lexes_as_atom(2) [OF assms])
  show "\<exists>p'. pending p' = rest \<and> errors p' = errors p
     \<and> parseExpression (Suc m) prec p = infixLoop (parseExpression m) m prec (Some e) p'"
    using parse_atom [OF assms p] pending_Cons(3,4) [OF p] by blast
qed

lemma prefix_operator_parser:
  "tok \<in> set prefix_operators \<Longrightarrow> prefixParsers (Type tok) = Some ParsePrefixOperator"
  by (auto simp: prefix_operators_def prefixParsers_def)

lemma infix_operator_parser:
  assumes "tok \<in> set infix_operators"
  shows "infixParsers (Type tok) = Some ParseInfixExpression" "Type tok \<noteq> SEMICOLON"
    "LOWEST < (case precedences (Type tok) of None \<Rightarrow> LOWEST | Some precedence \<Rightarrow> precedence)"
  using assms
  by (auto simp: infix_operators_def infixParsers_def precedences_def LOWEST_def EQUALS_def
      LESSGREATER_def SUM'_def PRODUCT_def)

lemma lparen_parser: "prefixParsers (Type lparen) = Some ParseGroupedExpression"
  by (simp add: lparen_def prefixParsers_def)

lemma grouped:
  assumes p: "pending p = lparen # toks"
    and inner: "\<And>p1. pending p1 = toks \<Longrightarrow> errors p1 = errors p \<Longrightarrow>
       \<exists>p2. pending p2 = rparen # rest \<and> errors p2 = errors p
          \<and> parseExpression m LOWEST p1 = Done (Some e) p2"
  shows "\<exists>p'. pending p' = rest \<and> errors p' = errors p
     \<and> parseExpression (Suc m) prec p = infixLoop (parseExpression m) m prec (Some e) p'"
proof -
  let ?p1 = "consumeToken LPAREN p"
  have p1: "pending ?p1 = toks" "errors ?p1 = errors p"
    using consumeToken_pending [OF p, of LPAREN] by (simp_all add: lparen_def)
  from inner [OF p1] obtain p2 where p2: "pending p2 = rparen # rest" "errors p2 = errors p"
    "parseExpression m LOWEST ?p1 = Done (Some e) p2" by blast
  let ?p3 = "consumeToken RPAREN p2"
  have p3: "pending ?p3 = rest" "errors ?p3 = errors p"
    using consumeToken_pending [OF p2(1), of RPAREN] p2(2) by (simp_all add: rparen_def)
  have "parseExpression (Suc m) prec p = infixLoop (parseExpression m) m prec (Some e) ?p3"
    by (simp add: unfold_expr [OF p lparen_parser] parseGroupedExpression_def p2(3))
  then show ?thesis using p3 by blast
qed

lemma parses_unary:
  assumes "tok \<in> set prefix_operators" and "parses_as H right"
  shows "parses_as (H + 3) (PrefixExpression tok (Literal tok) (Some right))"
  unfolding parses_as_def
proof (intro allI impI)
  fix m prec p rest
  let ?e = "PrefixExpression tok (Literal tok) (Some right)"
  assume m: "H + 3 \<le> m" and "pending p = expr_tokens ?e @ rest"
  then have p: "pending p = lparen # tok # expr_tokens right @ rparen # rest"
    by (simp add: lparen_def rparen_def)
  define k where "k = m - 3"
  have k: "m = Suc (Suc (Suc k))" "H \<le> k" using m by (simp_all add: k_def)
  show "\<exists>p'. pending p' = rest \<and> errors p' = errors p
     \<and> parseExpression (Suc m) prec p = infixLoop (parseExpression m) m prec (Some ?e) p'"
    using p
  proof (rule grouped)
    fix p1 assume p1: "pending p1 = tok # expr_tokens right @ rparen # rest"
      and e1: "errors p1 = errors p"
    let ?p2 = "consumeNextToken p1"
    have p2: "pending ?p2 = expr_tokens right @ rparen # rest" "errors ?p2 = errors p"
      using pending_Cons(3,4) [OF p1] e1 by simp_all
    have "H \<le> Suc k" using k(2) by simp
    with assms(2) obtain p3 where p3: "pending p3 = rparen # rest" "errors p3 = errors ?p2"
      "parseExpression (Suc (Suc k)) PREFIX ?p2
         = infixLoop (parseExpression (Suc k)) (Suc k) PREFIX (Some right) p3"
      using p2(1) by (rule parses_asD)
    have low: "getCurrentPrecedence p3 = LOWEST" using p3(1) by (rule at_rparen)
    have r: "parseExpression (Suc (Suc k)) PREFIX ?p2 = Done (Some right) p3"
      unfolding p3(3) by (rule infixLoop_stop) (simp_all add: low LOWEST_def PREFIX_def)
    have "parsePrefixOperator (parseExpression (Suc (Suc k))) p1 = Done (Some ?e) p3"
      using pending_Cons(1) [OF p1] by (simp add: parsePrefixOperator_def r)
    then have "parseExpression m LOWEST p1 = infixLoop (parseExpression (Suc (Suc k))) (Suc (Suc k))
        LOWEST (Some ?e) p3"
      unfolding k(1) by (simp add: unfold_expr [OF p1 prefix_operator_parser [OF assms(1)]])
    also have "\<dots> = Done (Some ?e) p3"
      by (rule infixLoop_stop) (simp_all add: low)
    finally show "\<exists>p2. pending p2 = rparen # rest \<and> errors p2 = errors p
          \<and> parseExpression m LOWEST p1 = Done (Some ?e) p2"
      using p3(1,2) p2(2) by auto
  qed
qed

lemma parses_binary:
  assumes "tok \<in> set infix_operators" and "parses_as Ha left" and "parses_as Hb right"
  shows "parses_as (max Ha Hb + 3) (InfixExpression tok (Some left) (Literal tok) (Some right))"
  unfolding parses_as_def
proof (intro allI impI)
  fix m prec p rest
  let ?e = "InfixExpression tok (Some left) (Literal tok) (Some right)"
  assume m: "max Ha Hb + 3 \<le> m" and "pending p = expr_tokens ?e @ rest"
  then have p: "pending p = lparen # expr_tokens left @ tok # expr_tokens right @ rparen # rest"
    by (simp add: lparen_def rparen_def)
  define k where "k = m - 3"
  have k: "m = Suc (Suc (Suc k))" "max Ha Hb \<le> k" using m by (auto simp: k_def)
  note ops = infix_operator_parser [OF assms(1)]
  show "\<exists>p'. pending p' = rest \<and> errors p' = errors p
     \<and> parseExpression (Suc m) prec p = infixLoop (parseExpression m) m prec (Some ?e) p'"
    using p
  proof (rule grouped)
    fix p1 assume p1: "pending p1 = expr_tokens left @ tok # expr_tokens right @ rparen # rest"
      and e1: "errors p1 = errors p"
    have "Ha \<le> Suc (Suc k)" using k(2) by simp
    with assms(2) obtain p2 where p2: "pending p2 = tok # expr_tokens right @ rparen # rest"
      "errors p2 = errors p1"
      "parseExpression (Suc (Suc (Suc k))) LOWEST p1
         = infixLoop (parseExpression (Suc (Suc k))) (Suc (Suc k)) LOWEST (Some left) p2"
      using p1 by (rule parses_asD)
    let ?p3 = "consumeNextToken p2"
    have c2: "currentToken p2 = tok" using p2(1) by (rule pending_Cons(1))
    have p3: "pending ?p3 = expr_tokens right @ rparen # rest" "errors ?p3 = errors p"
      using pending_Cons(3,4) [OF p2(1)] p2(2) e1 by simp_all
    have "Hb \<le> Suc k" using k(2) by simp
    with assms(3) obtain p4 where p4: "pending p4 = rparen # rest" "errors p4 = errors ?p3"
      "parseExpression (Suc (Suc k)) (getCurrentPrecedence p2) ?p3
         = infixLoop (parseExpression (Suc k)) (Suc k) (getCurrentPrecedence p2) (Some right) p4"
      using p3(1) by (rule parses_asD)
    have low: "getCurrentPrecedence p4 = LOWEST" using p4(1) by (rule at_rparen)
    have high: "LOWEST < getCurrentPrecedence p2"
      using ops(3) by (simp add: getCurrentPrecedence_def c2)
    have r: "parseExpression (Suc (Suc k)) (getCurrentPrecedence p2) ?p3 = Done (Some right) p4"
      unfolding p4(3) by (rule infixLoop_stop) (use high low in simp_all)
    have i: "parseInfixExpression (parseExpression (Suc (Suc k))) (Some left) p2
        = Done (Some ?e) p4"
      by (simp add: parseInfixExpression_def r c2)
    have "infixLoop (parseExpression (Suc (Suc k))) (Suc (Suc k)) LOWEST (Some left) p2
        = infixLoop (parseExpression (Suc (Suc k))) (Suc k) LOWEST (Some ?e) p4"
      using high ops(1,2) by (simp add: c2 i)
    also have "\<dots> = Done (Some ?e) p4"
      by (rule infixLoop_stop) (simp_all add: low)
    finally have "parseExpression m LOWEST p1 = Done (Some ?e) p4"
      unfolding k(1) p2(3) .
    then show "\<exists>p2. pending p2 = rparen # rest \<and> errors p2 = errors p
          \<and> parseExpression m LOWEST p1 = Done (Some ?e) p2"
      using p4(1,2) p3(2) by auto
  qed
qed

lemma parse_rendered: "operator_expr e \<Longrightarrow> \<exists>H. parses_as H e"
proof (induction rule: operator_expr.induct)
  case (leaf t e)
  then show ?case using parses_atom by blast
next
  case (unary tok right)
  then show ?case using parses_unary by blast
next
  case (binary tok left right)
  then show ?case using parses_binary by blast
qed

section \<open>Rendering and parsing again\<close>

lemma atom_statement: "atom t e \<Longrightarrow> parselets (Type t) = None"
  by (induction rule: atom.induct) (simp_all add: parselets_def)

lemma first_token:
  "operator_expr e \<Longrightarrow> \<exists>t ts. expr_tokens e = t # ts \<and> parselets (Type t) = None"
proof (induction rule: operator_expr.induct)
  case (leaf t e)
  then show ?case using lexes_as_atom(2) [of t e] atom_statement [of t e] by simp
qed (simp_all add: parselets_def)

lemma program_of_expression:
  assumes "parses_as H e" and p: "pending p = expr_tokens e"
    and t: "expr_tokens e = t # ts" "parselets (Type t) = None"
  shows "\<exists>p'. ParseProgram (H + 3) p
            = Done \<lparr>Statements = [Some (ExpressionStatement t (Some e))]\<rparr> p'
          \<and> errors p' = errors p"
proof -
  have c: "currentToken p = t" "Type t \<noteq> EOF" using pending_Cons(1,2) [of p t ts] p t(1) by simp_all
  have "H \<le> Suc H" and "pending p = expr_tokens e @ []" using p by simp_all
  with assms(1) obtain p' where p': "pending p' = []" "errors p' = errors p"
    "parseExpression (Suc (Suc H)) LOWEST p
       = infixLoop (parseExpression (Suc H)) (Suc H) LOWEST (Some e) p'"
    by (rule parses_asD)
  note e = at_end [OF p'(1)]
  have "parseExpression (Suc (Suc H)) LOWEST p = Done (Some e) p'"
    unfolding p'(3) by (rule infixLoop_stop) (simp_all add: e)
  then have "expressionStatementParselet (parseExpression (Suc (Suc H))) p
      = Done (Some (ExpressionStatement t (Some e))) p'"
    by (simp add: expressionStatementParselet_def c e)
  then have s: "parseStatement (Suc (Suc (Suc H))) p
      = Done (Some (ExpressionStatement t (Some e))) p'"
    by (simp add: parseStatement_Suc parseStatementBody_def c t(2))
  have end': "Type (currentToken p') = EOF" using p'(1) by (simp add: pending_Nil)
  have "programLoop (parseStatement (Suc (Suc (Suc H)))) (Suc (Suc (Suc H))) [] p
      = Done [Some (ExpressionStatement t (Some e))] p'"
    by (simp add: c s end')
  then have "ParseProgram (Suc (Suc (Suc H))) p
      = Done \<lparr>Statements = [Some (ExpressionStatement t (Some e))]\<rparr> p'"
    by (simp add: ParseProgram_def)
  moreover have "H + 3 = Suc (Suc (Suc H))" by simp
  ultimately show ?thesis using p'(2) by metis
qed

lemma reparse_rendered:
  assumes "operator_expr e" and "Expression_String e = Some src"
  shows "\<exists>H t p'. parse_source H src
            = Done \<lparr>Statements = [Some (ExpressionStatement t (Some e))]\<rparr> p'
          \<and> errors p' = []"
proof -
  from lex_rendered [OF assms(1)] assms(2) have "lexes_as src (expr_tokens e)" by simp
  then have "lex_all (Lexer_New src) = expr_tokens e" by (rule lex_all_rendered)
  then have p: "pending (Parser_New (Lexer_New src)) = expr_tokens e" by (simp add: pending_New)
  obtain H where H: "parses_as H e" using parse_rendered [OF assms(1)] by blast
  obtain t ts where t: "expr_tokens e = t # ts" "parselets (Type t) = None"
    using first_token [OF assms(1)] by blast
  from program_of_expression [OF H p t] show ?thesis
    unfolding parse_source_def by (auto simp: errors_New)
qed

text \<open>
  C9: rendering the \<open>Program\<close> parsed from an input and parsing the rendered text again
  gives a \<open>Program\<close> with the same rendering. The claim fails on an \<open>if\<close> expression:
  \<open>IfExpression.String\<close> writes \<open>if\<close> and the condition with nothing between them and
  leaves out the braces, so \<open>if (x) { y }\<close> renders as \<open>ifx y\<close>, which parses as the two
  identifiers \<open>ifx\<close> and \<open>y\<close> and renders as \<open>ifxy\<close>.
\<close>

theorem if_rendering_counterexample:
  "rendered (parse_source 20 ''if (x) { y }'') = Some ''ifx y''
   \<and> rendered (parse_source 20 ''ifx y'') = Some ''ifxy''"
  by (simp add: lexer_eval parser_eval render_eval cong: let_weak_cong bind_weak_cong)

text \<open>
  C9, amended: the round trip holds on the operator fragment. Let \<open>e\<close> be an expression
  built, as the parser builds them, from identifiers that are no keywords, integer
  literals, \<open>true\<close>, \<open>false\<close>, the prefix operators \<open>!\<close> and \<open>-\<close> and the eight infix
  operators, and let \<open>src\<close> be its rendering. Parsing \<open>src\<close> reports no error and gives
  the program of the one expression statement \<open>e\<close>, whose rendering is \<open>src\<close> again; the
  fuel \<open>2 * length src + 6\<close> is enough.
\<close>

theorem operator_round_trip:
  assumes "operator_expr e" and "Expression_String e = Some src" and "2 * length src + 6 \<le> n"
  shows "expressions (parse_source n src) = Some [Some e]
       \<and> diagnostics (parse_source n src) = Some []
       \<and> rendered (parse_source n src) = Some src"
proof -
  from reparse_rendered [OF assms(1,2)] obtain H t p' where
    H: "parse_source H src = Done \<lparr>Statements = [Some (ExpressionStatement t (Some e))]\<rparr> p'"
    and e: "errors p' = []" by blast
  have "2 * tokens_left (Parser_New (Lexer_New src)) + 2 \<le> n"
    using assms(3) tokens_left_New [of src] by simp
  then have live: "parse_source n src \<noteq> OutOfFuel"
    unfolding parse_source_def by (rule ParseProgram_live)
  have "parse_source n src = parse_source H src"
  proof (cases "n \<le> H")
    case True
    with live show ?thesis by (rule parse_source_more_fuel [symmetric])
  next
    case False
    then have "H \<le> n" by simp
    moreover have "parse_source H src \<noteq> OutOfFuel" by (simp add: H)
    ultimately show ?thesis by (intro parse_source_more_fuel)
  qed
  then show ?thesis
    using H e assms(2)
    by (simp add: expressions_def diagnostics_def rendered_def Errors_def Program_String_def
        write_all_def on_interface_def)
qed

theorem operator_round_trip_witness:
  "operator_expr (InfixExpression \<lparr>Type = PLUS, Literal = ''+''\<rparr>
       (Some (IntegerLiteral \<lparr>Type = INT', Literal = ''1''\<rparr> 1)) ''+''
       (Some (PrefixExpression \<lparr>Type = MINUS, Literal = ''-''\<rparr> ''-''
          (Some (IdentifierExpr (Identifier \<lparr>Type = IDENT, Literal = ''a''\<rparr> ''a''))))))
   \<and> rendered (parse_source 30 ''(1 + (-a))'') = Some ''(1 + (-a))''
   \<and> expressions (parse_source 30 ''(1 + (-a))'')
       = Some [Some (InfixExpression \<lparr>Type = PLUS, Literal = ''+''\<rparr>
           (Some (IntegerLiteral \<lparr>Type = INT', Literal = ''1''\<rparr> 1)) ''+''
           (Some (PrefixExpression \<lparr>Type = MINUS, Literal = ''-''\<rparr> ''-''
              (Some (IdentifierExpr (Identifier \<lparr>Type = IDENT, Literal = ''a''\<rparr> ''a''))))))]"
proof -
  let ?a = "IdentifierExpr (Identifier \<lparr>Type = IDENT, Literal = ''a''\<rparr> ''a'')"
  let ?m = "PrefixExpression \<lparr>Type = MINUS, Literal = ''-''\<rparr> ''-'' (Some ?a)"
  let ?one = "IntegerLiteral \<lparr>Type = INT', Literal = ''1''\<rparr> 1"
  let ?e = "InfixExpression \<lparr>Type = PLUS, Literal = ''+''\<rparr> (Some ?one) ''+'' (Some ?m)"
  have "atom \<lparr>Type = IDENT, Literal = ''a''\<rparr> ?a"
    by (rule atom.name) (simp_all add: isCharacter_nat keywordTable_def)
  then have a: "operator_expr ?a" by (rule operator_expr.leaf)
  have "operator_expr (PrefixExpression \<lparr>Type = MINUS, Literal = ''-''\<rparr>
      (Literal \<lparr>Type = MINUS, Literal = ''-''\<rparr>) (Some ?a))"
    using a by (intro operator_expr.unary) (simp_all add: prefix_operators_def)
  then have m: "operator_expr ?m" by simp
  have "atom \<lparr>Type = INT', Literal = ''1''\<rparr> ?one"
    by (rule atom.literal) (simp_all add: isDigit_nat ParseInt_def)
  then have one: "operator_expr ?one" by (rule operator_expr.leaf)
  have "operator_expr (InfixExpression \<lparr>Type = PLUS, Literal = ''+''\<rparr> (Some ?one)
      (Literal \<lparr>Type = PLUS, Literal = ''+''\<rparr>) (Some ?m))"
    using one m by (intro operator_expr.binary) (simp_all add: infix_operators_def)
  then have e: "operator_expr ?e" by simp
  have r: "Expression_String ?e = Some ''(1 + (-a))''" by (simp add: on_interface_def)
  have n: "2 * length ''(1 + (-a))'' + 6 \<le> (30::nat)" by simp
  from operator_round_trip [OF e r n] e show ?thesis by simp
qed

section \<open>The precedence of the token after an expression\<close>

lemma getCurrentPrecedence_pending:
  "pending p = rest \<Longrightarrow> getCurrentPrecedence p = next_precedence rest"
proof (cases rest)
  case Nil
  assume "pending p = rest"
  then have "Type (currentToken p) = EOF" using Nil by (simp add: pending_Nil)
  then show ?thesis using Nil
    by (simp add: getCurrentPrecedence_def next_precedence_def precedences_def)
next
  case (Cons t ts)
  assume "pending p = rest"
  then have "currentToken p = t" using Cons pending_Cons(1) by simp
  then show ?thesis using Cons by (simp add: getCurrentPrecedence_def next_precedence_def)
qed

lemma precedences_range: "precedences t = Some q \<Longrightarrow> LOWEST < q \<and> q \<le> PRODUCT"
  by (auto simp: precedences_def LOWEST_def EQUALS_def LESSGREATER_def SUM'_def PRODUCT_def
      split: if_splits)

lemma next_precedence_range: "LOWEST \<le> next_precedence rest \<and> next_precedence rest \<le> PRODUCT"
proof (cases rest)
  case Nil
  then show ?thesis by (simp add: next_precedence_def LOWEST_def PRODUCT_def)
next
  case (Cons t ts)
  show ?thesis
  proof (cases "precedences (Type t)")
    case None
    then show ?thesis using Cons by (simp add: next_precedence_def LOWEST_def PRODUCT_def)
  next
    case (Some q)
    then show ?thesis using Cons precedences_range [OF Some] by (simp add: next_precedence_def)
  qed
qed

lemma next_precedence_closing [simp]:
  "next_precedence (rparen # rest) = LOWEST" "next_precedence (semicolon # rest) = LOWEST"
  "next_precedence [] = LOWEST"
  by (simp_all add: next_precedence_def rparen_def semicolon_def precedences_def)

lemma infix_operator_strength:
  assumes "tok \<in> set infix_operators"
  shows "precedences (Type tok) = Some (int (spec_strength (Type tok)) + 1)"
    and "1 \<le> spec_strength (Type tok)" and "spec_strength (Type tok) \<le> 4"
proof -
  show "precedences (Type tok) = Some (int (spec_strength (Type tok)) + 1)"
    using assms
    by (cases rule: infix_operators_cases)
       (simp_all add: precedences_def spec_strength_def EQUALS_def LESSGREATER_def SUM'_def
          PRODUCT_def)
  show "1 \<le> spec_strength (Type tok)"
    using assms by (cases rule: infix_operators_cases) (simp_all add: spec_strength_def)
  show "spec_strength (Type tok) \<le> 4"
    using assms by (cases rule: infix_operators_cases) (simp_all add: spec_strength_def)
qed

lemma next_precedence_operator:
  "tok \<in> set infix_operators \<Longrightarrow>
   next_precedence (tok # rest) = int (spec_strength (Type tok)) + 1"
  by (simp add: next_precedence_def infix_operator_strength(1))

lemma infixLoop_ends:
  "getCurrentPrecedence p \<le> prec \<Longrightarrow> infixLoop pe (Suc k) prec left p = Done left p"
  by simp

lemma infixLoop_ends_pending:
  assumes "pending p = rest" and "next_precedence rest \<le> prec" and "0 < k"
  shows "infixLoop pe k prec left p = Done left p"
proof -
  obtain j where "k = Suc j" using assms(3) by (cases k) auto
  then show ?thesis
    using getCurrentPrecedence_pending [OF assms(1)] assms(2) by (simp add: infixLoop_ends)
qed

section \<open>Parsing an expression by precedence\<close>

lemma reads_asD:
  assumes "reads_as H c ts s e" and "H \<le> m" and "prec < int s + 1"
    and "pending p = ts @ rest" and "next_precedence rest \<le> int s + 1"
  obtains p' where "pending p' = rest" and "errors p' = errors p"
    and "parseExpression (Suc m) prec p = infixLoop (parseExpression m) (m - c) prec (Some e) p'"
  using assms unfolding reads_as_def by blast

lemma reads_operand:
  assumes "atom t e"
  shows "reads_as 0 0 [t] operand_strength e"
  unfolding reads_as_def
proof (intro allI impI)
  fix m prec p rest
  assume "pending p = [t] @ rest"
  then have p: "pending p = t # rest" by simp
  show "\<exists>p'. pending p' = rest \<and> errors p' = errors p
     \<and> parseExpression (Suc m) prec p = infixLoop (parseExpression m) (m - 0) prec (Some e) p'"
    using parse_atom [OF assms p] pending_Cons(3,4) [OF p] by auto
qed

lemma reads_unary:
  assumes "tok \<in> set prefix_operators" and "reads_as H c ts operand_strength right"
  shows "reads_as (H + c + 2) 0 (tok # ts) operand_strength
           (PrefixExpression tok (Literal tok) (Some right))"
  unfolding reads_as_def
proof (intro allI impI)
  fix m prec p rest
  let ?e = "PrefixExpression tok (Literal tok) (Some right)"
  assume m: "H + c + 2 \<le> m" and "pending p = (tok # ts) @ rest"
  then have p: "pending p = tok # ts @ rest" by simp
  define k where "k = m - 1"
  have k: "m = Suc k" "H \<le> k" "0 < k - c" using m by (simp_all add: k_def)
  let ?p1 = "consumeNextToken p"
  have p1: "pending ?p1 = ts @ rest" "errors ?p1 = errors p"
    using pending_Cons(3,4) [OF p] by simp_all
  have "PREFIX < int operand_strength + 1" by (simp add: PREFIX_def operand_strength_def)
  moreover have "next_precedence rest \<le> int operand_strength + 1"
    using next_precedence_range [of rest] by (simp add: PRODUCT_def operand_strength_def)
  ultimately obtain p2 where p2: "pending p2 = rest" "errors p2 = errors ?p1"
    "parseExpression (Suc k) PREFIX ?p1
       = infixLoop (parseExpression k) (k - c) PREFIX (Some right) p2"
    using assms(2) k(2) p1(1) by (elim reads_asD) auto
  have "next_precedence rest \<le> PREFIX"
    using next_precedence_range [of rest] by (simp add: PRODUCT_def PREFIX_def)
  with p2(1) have "infixLoop (parseExpression k) (k - c) PREFIX (Some right) p2
      = Done (Some right) p2"
    using k(3) by (rule infixLoop_ends_pending)
  then have r: "parseExpression m PREFIX ?p1 = Done (Some right) p2"
    using p2(3) by (simp add: k(1))
  have "parsePrefixOperator (parseExpression m) p = Done (Some ?e) p2"
    using pending_Cons(1) [OF p] by (simp add: parsePrefixOperator_def r)
  then have "parseExpression (Suc m) prec p
      = infixLoop (parseExpression m) (m - 0) prec (Some ?e) p2"
    by (simp add: unfold_expr [OF p prefix_operator_parser [OF assms(1)]])
  then show "\<exists>p'. pending p' = rest \<and> errors p' = errors p
     \<and> parseExpression (Suc m) prec p
         = infixLoop (parseExpression m) (m - 0) prec (Some ?e) p'"
    using p2(1,2) p1(2) by auto
qed

lemma reads_group:
  assumes "reads_as H c ts s e" and "1 \<le> s"
  shows "reads_as (H + c + 2) 0 (lparen # ts @ [rparen]) operand_strength e"
  unfolding reads_as_def
proof (intro allI impI)
  fix m prec p rest
  assume m: "H + c + 2 \<le> m" and "pending p = (lparen # ts @ [rparen]) @ rest"
  then have p: "pending p = lparen # ts @ rparen # rest" by simp
  define k where "k = m - 1"
  have k: "m = Suc k" "H \<le> k" "0 < k - c" using m by (simp_all add: k_def)
  have "\<exists>p'. pending p' = rest \<and> errors p' = errors p
     \<and> parseExpression (Suc m) prec p = infixLoop (parseExpression m) m prec (Some e) p'"
    using p
  proof (rule grouped)
    fix p1 assume p1: "pending p1 = ts @ rparen # rest" and e1: "errors p1 = errors p"
    have "LOWEST < int s + 1" using assms(2) by (simp add: LOWEST_def)
    moreover have "next_precedence (rparen # rest) \<le> int s + 1"
      using assms(2) by (simp add: LOWEST_def)
    ultimately obtain p2 where p2: "pending p2 = rparen # rest" "errors p2 = errors p1"
      "parseExpression (Suc k) LOWEST p1
         = infixLoop (parseExpression k) (k - c) LOWEST (Some e) p2"
      using assms(1) k(2) p1 by (elim reads_asD) auto
    have "next_precedence (rparen # rest) \<le> LOWEST" by simp
    with p2(1) have "infixLoop (parseExpression k) (k - c) LOWEST (Some e) p2 = Done (Some e) p2"
      using k(3) by (rule infixLoop_ends_pending)
    then have "parseExpression m LOWEST p1 = Done (Some e) p2"
      using p2(3) by (simp add: k(1))
    then show "\<exists>p2. pending p2 = rparen # rest \<and> errors p2 = errors p
          \<and> parseExpression m LOWEST p1 = Done (Some e) p2"
      using p2(1,2) e1 by auto
  qed
  then show "\<exists>p'. pending p' = rest \<and> errors p' = errors p
     \<and> parseExpression (Suc m) prec p = infixLoop (parseExpression m) (m - 0) prec (Some e) p'"
    by simp
qed

lemma reads_binary:
  assumes tok: "tok \<in> set infix_operators"
    and left: "reads_as Ha ca ts1 s1 left" and right: "reads_as Hb cb ts2 s2 right"
    and s1: "spec_strength (Type tok) \<le> s1" and s2: "spec_strength (Type tok) < s2"
  shows "reads_as (Ha + Hb + ca + cb + 2) (Suc ca) (ts1 @ tok # ts2) (spec_strength (Type tok))
           (InfixExpression tok (Some left) (Literal tok) (Some right))"
  unfolding reads_as_def
proof (intro allI impI)
  fix m prec p rest
  let ?e = "InfixExpression tok (Some left) (Literal tok) (Some right)"
  let ?s = "spec_strength (Type tok)"
  let ?S = "int ?s + 1"
  assume m: "Ha + Hb + ca + cb + 2 \<le> m" and prec: "prec < ?S"
    and "pending p = (ts1 @ tok # ts2) @ rest" and rest: "next_precedence rest \<le> ?S"
  then have p: "pending p = ts1 @ tok # ts2 @ rest" by simp
  define k where "k = m - 1"
  have k: "m = Suc k" "Hb \<le> k" "0 < k - cb" using m by (simp_all add: k_def)
  define j where "j = m - Suc ca"
  have j: "m - ca = Suc j" using m by (simp add: j_def)
  note ops = infix_operator_parser [OF tok]
  have "prec < int s1 + 1" using prec s1 by simp
  moreover have "next_precedence (tok # ts2 @ rest) \<le> int s1 + 1"
    using s1 by (simp add: next_precedence_operator [OF tok])
  moreover have "Ha \<le> m" using m by simp
  ultimately obtain p1 where p1: "pending p1 = tok # ts2 @ rest" "errors p1 = errors p"
    "parseExpression (Suc m) prec p
       = infixLoop (parseExpression m) (m - ca) prec (Some left) p1"
    using left p by (elim reads_asD) auto
  have c1: "currentToken p1 = tok" using p1(1) by (rule pending_Cons(1))
  have g1: "getCurrentPrecedence p1 = ?S"
    using getCurrentPrecedence_pending [OF p1(1)] by (simp add: next_precedence_operator [OF tok])
  let ?p2 = "consumeNextToken p1"
  have p2: "pending ?p2 = ts2 @ rest" "errors ?p2 = errors p"
    using pending_Cons(3,4) [OF p1(1)] p1(2) by simp_all
  have "?S < int s2 + 1" using s2 by simp
  moreover have "next_precedence rest \<le> int s2 + 1" using rest s2 by simp
  ultimately obtain p3 where p3: "pending p3 = rest" "errors p3 = errors ?p2"
    "parseExpression (Suc k) ?S ?p2 = infixLoop (parseExpression k) (k - cb) ?S (Some right) p3"
    using right k(2) p2(1) by (elim reads_asD) auto
  have "infixLoop (parseExpression k) (k - cb) ?S (Some right) p3 = Done (Some right) p3"
    using p3(1) rest k(3) by (rule infixLoop_ends_pending)
  then have r: "parseExpression m ?S ?p2 = Done (Some right) p3"
    using p3(3) by (simp add: k(1))
  have i: "parseInfixExpression (parseExpression m) (Some left) p1 = Done (Some ?e) p3"
    by (simp add: parseInfixExpression_def g1 r c1)
  have "infixLoop (parseExpression m) (Suc j) prec (Some left) p1
      = infixLoop (parseExpression m) j prec (Some ?e) p3"
    using prec ops(1,2) by (simp add: g1 c1 i)
  then have "parseExpression (Suc m) prec p
      = infixLoop (parseExpression m) (m - Suc ca) prec (Some ?e) p3"
    unfolding p1(3) j by (simp add: j_def)
  then show "\<exists>p'. pending p' = rest \<and> errors p' = errors p
     \<and> parseExpression (Suc m) prec p
         = infixLoop (parseExpression m) (m - Suc ca) prec (Some ?e) p'"
    using p3(1,2) p2(2) by auto
qed

lemma reading_strength: "spec_reading ts e s \<Longrightarrow> 1 \<le> s"
proof (induction rule: spec_reading.induct)
  case (binary tok ts1 left s1 ts2 right s2)
  show ?case using infix_operator_strength(2) [OF binary.hyps(1)] .
qed (simp_all add: operand_strength_def)

lemma parse_reading: "spec_reading ts e s \<Longrightarrow> \<exists>H c. reads_as H c ts s e"
proof (induction rule: spec_reading.induct)
  case (operand t e)
  then show ?case using reads_operand by blast
next
  case (unary tok ts right)
  then show ?case using reads_unary by blast
next
  case (group ts e s)
  then show ?case using reads_group reading_strength by blast
next
  case (binary tok ts1 left s1 ts2 right s2)
  then show ?case using reads_binary by blast
qed

section \<open>Lexing tokens separated by single spaces\<close>

lemma lexes_to_single:
  assumes "\<exists>l'. NextToken l = (t, l') \<and> lexer_inv l' \<and> remaining l' = rest" and "Type t \<noteq> EOF"
  shows "lexes_to l [t] rest"
  using assms
proof (rule lexes_to_token)
  show "lexes_to l1 [] rest" if "lexer_inv l1" "remaining l1 = rest" for l1
    using that by (rule lexes_to_Nil)
qed

lemma lparen_not_EOF: "Type lparen \<noteq> EOF" "Type rparen \<noteq> EOF"
  by (simp_all add: lparen_def rparen_def)

lemma lex_operator_token:
  assumes "operator_token t" and l: "lexer_inv l" "remaining l = Literal t @ rest"
    and rest: "boundary rest" "first rest \<noteq> CHR ''=''"
  shows "lexes_to l [t] rest"
proof -
  consider e where "atom t e" | "t \<in> set prefix_operators" | "t \<in> set infix_operators"
    | "t = lparen" | "t = rparen"
    using assms(1) unfolding operator_token_def by blast
  then show ?thesis
  proof cases
    case 1
    from lexes_as_atom(3) [OF 1] l rest(1) show ?thesis by (rule lexes_asD)
  next
    case 2
    from lex_prefix_operator [OF 2 l rest(2)] operator_not_EOF(1) [OF 2]
    show ?thesis by (rule lexes_to_single)
  next
    case 3
    from lex_infix_operator [OF 3 l] operator_not_EOF(2) [OF 3]
    show ?thesis by (rule lexes_to_single)
  next
    case 4
    have "remaining l = CHR ''('' # rest" using l(2) by (simp add: 4 lparen_def)
    from lex_lparen [OF l(1) this] show ?thesis
      unfolding 4 by (rule lexes_to_single) (rule lparen_not_EOF)
  next
    case 5
    have "remaining l = CHR '')'' # rest" using l(2) by (simp add: 5 rparen_def)
    from lex_rparen [OF l(1) this] show ?thesis
      unfolding 5 by (rule lexes_to_single) (rule lparen_not_EOF)
  qed
qed

lemma lex_spaced:
  "list_all operator_token ts \<Longrightarrow> ts \<noteq> [] \<Longrightarrow> lexer_inv l \<Longrightarrow>
   remaining l = Join (map Literal ts) '' '' @ rest \<Longrightarrow> boundary rest \<Longrightarrow>
   first rest \<noteq> CHR ''='' \<Longrightarrow> lexes_to l ts rest"
proof (induction ts arbitrary: l)
  case Nil
  then show ?case by simp
next
  case (Cons t ts)
  show ?case
  proof (cases ts)
    case Nil
    have "operator_token t" using Cons.prems(1) by simp
    moreover have "remaining l = Literal t @ rest" using Cons.prems(4) Nil by simp
    ultimately show ?thesis
      unfolding Nil using Cons.prems(3,5,6) by (intro lex_operator_token)
  next
    case (Cons u us)
    let ?mid = "Join (map Literal ts) '' '' @ rest"
    have t: "operator_token t" and ts: "list_all operator_token ts" "ts \<noteq> []"
      using Cons.prems(1) Cons by simp_all
    have r: "remaining l = Literal t @ CHR '' '' # ?mid" using Cons.prems(4) Cons by simp
    have "lexes_to l ([t] @ ts) rest"
    proof (rule lexes_to_append)
      show "lexes_to l [t] (CHR '' '' # ?mid)"
        using t Cons.prems(3) r by (rule lex_operator_token) simp_all
    next
      fix l1 assume l1: "lexer_inv l1" "remaining l1 = CHR '' '' # ?mid"
      have "lexes_to l1 (u # us) rest"
        using l1
      proof (rule lexes_to_skip_space)
        fix l2 assume "lexer_inv l2" "remaining l2 = ?mid"
        then have "lexes_to l2 ts rest"
          using ts Cons.prems(5,6) by (intro Cons.IH)
        then show "lexes_to l2 (u # us) rest" by (simp add: Cons)
      qed
      then show "lexes_to l1 ts rest" by (simp add: Cons)
    qed
    then show ?thesis by simp
  qed
qed

lemma lex_semicolon:
  assumes "lexer_inv l" and "remaining l = '';''"
  shows "lexes_to l [semicolon] []"
proof -
  have "\<exists>l'. NextToken l = (\<lparr>Type = SEMICOLON, Literal = '';''\<rparr>, l') \<and> lexer_inv l'
      \<and> remaining l' = []"
    using assms
    by (rule lex_single)
       (simp_all add: punctuation_def GetSingleCharToken_def singleCharTokens_def)
  then show ?thesis unfolding semicolon_def by (rule lexes_to_single) simp
qed

lemma lex_all_lexes_to: "lexes_to l toks [] \<Longrightarrow> lex_all l = toks"
  using lex_all_lexes [of l toks] by (auto simp: lexes_to_def lex_all_end)

lemma reading_tokens: "spec_reading ts e s \<Longrightarrow> list_all operator_token ts \<and> ts \<noteq> []"
  by (induction rule: spec_reading.induct) (auto simp: operator_token_def)

lemma reading_first: "spec_reading ts e s \<Longrightarrow> parselets (Type (hd ts)) = None"
proof (induction rule: spec_reading.induct)
  case (operand t e)
  then show ?case by (simp add: atom_statement)
next
  case (unary tok ts right)
  then show ?case by (auto simp: prefix_operators_def parselets_def)
next
  case (group ts e s)
  show ?case by (simp add: lparen_def parselets_def)
next
  case (binary tok ts1 left s1 ts2 right s2)
  then show ?case using reading_tokens [of ts1 left s1] by simp
qed

lemma reading_renders: "spec_reading ts e s \<Longrightarrow> \<exists>shown. Expression_String e = Some shown"
proof (induction rule: spec_reading.induct)
  case (operand t e)
  then show ?case by (simp add: lexes_as_atom(1))
qed (auto simp: on_interface_def)

lemma pending_source:
  assumes "spec_reading ts e s"
  shows "pending (Parser_New (Lexer_New (source ts))) = ts @ [semicolon]"
proof -
  note ts = reading_tokens [OF assms]
  have "lexes_to (Lexer_New (source ts)) (ts @ [semicolon]) []"
  proof (rule lexes_to_append)
    show "lexes_to (Lexer_New (source ts)) ts '';''"
      using ts by (intro lex_spaced)
        (simp_all add: lexer_inv_New remaining_New source_def boundary_def isCharacter_nat
          isDigit_nat)
    show "lexes_to l1 [semicolon] []" if "lexer_inv l1" "remaining l1 = '';''" for l1
      using that by (rule lex_semicolon)
  qed
  then show ?thesis by (simp add: pending_New lex_all_lexes_to)
qed

section \<open>The program of a single expression statement\<close>

lemma ParseProgram_reading:
  assumes "spec_reading ts e s" and p: "pending p = ts @ [semicolon]"
  shows "\<exists>N t p'. ParseProgram N p
            = Done \<lparr>Statements = [Some (ExpressionStatement t (Some e))]\<rparr> p'
          \<and> errors p' = errors p"
proof -
  obtain H c where r: "reads_as H c ts s e" using parse_reading [OF assms(1)] by blast
  note s = reading_strength [OF assms(1)]
  obtain t ts' where ts: "ts = t # ts'" using reading_tokens [OF assms(1)] by (cases ts) auto
  have t: "parselets (Type t) = None" using reading_first [OF assms(1)] ts by simp
  have c: "currentToken p = t" "Type t \<noteq> EOF"
    using pending_Cons(1,2) [of p t "ts' @ [semicolon]"] p ts by simp_all
  define m where "m = H + c + 1"
  have m: "H \<le> m" "0 < m - c" by (simp_all add: m_def)
  have "LOWEST < int s + 1" using s by (simp add: LOWEST_def)
  moreover have "next_precedence [semicolon] \<le> int s + 1" using s by (simp add: LOWEST_def)
  ultimately obtain p1 where p1: "pending p1 = [semicolon]" "errors p1 = errors p"
    "parseExpression (Suc m) LOWEST p
       = infixLoop (parseExpression m) (m - c) LOWEST (Some e) p1"
    using r m(1) p by (elim reads_asD) auto
  have "next_precedence [semicolon] \<le> LOWEST" by simp
  with p1(1) have "infixLoop (parseExpression m) (m - c) LOWEST (Some e) p1 = Done (Some e) p1"
    using m(2) by (rule infixLoop_ends_pending)
  then have e: "parseExpression (Suc m) LOWEST p = Done (Some e) p1" using p1(3) by simp
  have c1: "currentToken p1 = semicolon" using p1(1) by (rule pending_Cons(1))
  let ?p2 = "consumeToken SEMICOLON p1"
  have p2: "pending ?p2 = []" "errors ?p2 = errors p"
    using consumeToken_pending [OF p1(1), of SEMICOLON] p1(2) by (simp_all add: semicolon_def)
  have "expressionStatementParselet (parseExpression (Suc m)) p
      = Done (Some (ExpressionStatement t (Some e))) ?p2"
    by (simp add: expressionStatementParselet_def c e c1 semicolon_def)
  then have st: "parseStatement (Suc (Suc m)) p
      = Done (Some (ExpressionStatement t (Some e))) ?p2"
    by (simp add: parseStatement_Suc parseStatementBody_def c t)
  have end': "Type (currentToken ?p2) = EOF" using p2(1) by (simp add: pending_Nil)
  have "programLoop (parseStatement (Suc (Suc m))) (Suc (Suc m)) [] p
      = Done [Some (ExpressionStatement t (Some e))] ?p2"
    by (simp add: c st end')
  then have "ParseProgram (Suc (Suc m)) p
      = Done \<lparr>Statements = [Some (ExpressionStatement t (Some e))]\<rparr> ?p2"
    by (simp add: ParseProgram_def)
  then show ?thesis using p2(2) by blast
qed

lemma ParseProgram_reading_fuel:
  assumes "spec_reading ts e s" and p: "pending p = ts @ [semicolon]"
    and n: "2 * tokens_left p + 2 \<le> n"
  shows "\<exists>t p'. ParseProgram n p
            = Done \<lparr>Statements = [Some (ExpressionStatement t (Some e))]\<rparr> p'
          \<and> errors p' = errors p"
proof -
  from ParseProgram_reading [OF assms(1,2)] obtain N t p' where
    N: "ParseProgram N p = Done \<lparr>Statements = [Some (ExpressionStatement t (Some e))]\<rparr> p'"
    and e: "errors p' = errors p" by blast
  have live: "ParseProgram n p \<noteq> OutOfFuel" using n by (rule ParseProgram_live)
  have "ParseProgram n p = ParseProgram N p"
  proof (cases "n \<le> N")
    case True
    with live show ?thesis by (rule ParseProgram_more_fuel [symmetric])
  next
    case False
    then have "N \<le> n" by simp
    moreover have "ParseProgram N p \<noteq> OutOfFuel" by (simp add: N)
    ultimately show ?thesis by (intro ParseProgram_more_fuel)
  qed
  then show ?thesis using N e by auto
qed

section \<open>Precedence, associativity and prefix binding\<close>

text \<open>
  C3: parsing a single expression statement and rendering the program gives the fully
  parenthesized text that reflects precedence, left associativity and prefix binding.
  The grouping that the precedence table of the specification prescribes (equality below
  relational below additive below multiplicative below prefix) is the relation
  \<open>spec_reading\<close>: an infix operator takes as its left operand a group that binds at
  least as strongly as it (chains of one strength group to the left) and as its right
  operand a group that binds strictly more strongly; the operand of a prefix operator is
  an atom, a prefix expression or a parenthesized expression, never a bare infix
  expression; parentheses make an operand of any group. Whenever the tokens \<open>ts\<close> are
  grouped so as the expression \<open>e\<close>: a parser whose tokens are \<open>ts\<close> and \<open>;\<close> returns, with no
  new diagnostic, the program of the one expression statement \<open>e\<close>, which renders as \<open>e\<close>
  renders (each prefix and infix node between parentheses); so does parsing the text of
  the tokens separated by single spaces and ended by \<open>;\<close>. The three inputs of the claim
  render as it says: \<open>1 + 2 * 3;\<close> as \<open>(1 + (2 * 3))\<close>, \<open>1 - 2 - 3;\<close> as \<open>((1 - 2) - 3)\<close> and
  \<open>-1 * 2;\<close> as \<open>((-1) * 2)\<close>.
\<close>

theorem rendering_reflects_grouping:
  assumes "spec_reading ts e s"
  shows "(pending p = ts @ [semicolon] \<and> 2 * tokens_left p + 2 \<le> n \<longrightarrow>
            expressions (ParseProgram n p) = Some [Some e]
          \<and> diagnostics (ParseProgram n p) = Some (errors p)
          \<and> rendered (ParseProgram n p) = Expression_String e)
       \<and> (2 * length (source ts) + 6 \<le> k \<longrightarrow>
            expressions (parse_source k (source ts)) = Some [Some e]
          \<and> diagnostics (parse_source k (source ts)) = Some []
          \<and> rendered (parse_source k (source ts)) = Expression_String e)
       \<and> Expression_String e \<noteq> None
       \<and> rendered (parse_source 20 ''1 + 2 * 3;'') = Some ''(1 + (2 * 3))''
       \<and> rendered (parse_source 20 ''1 - 2 - 3;'') = Some ''((1 - 2) - 3)''
       \<and> rendered (parse_source 20 ''-1 * 2;'') = Some ''((-1) * 2)''"
proof -
  have general: "expressions (ParseProgram n p) = Some [Some e]
          \<and> diagnostics (ParseProgram n p) = Some (errors p)
          \<and> rendered (ParseProgram n p) = Expression_String e"
    if "pending p = ts @ [semicolon]" "2 * tokens_left p + 2 \<le> n" for p n
  proof -
    from ParseProgram_reading_fuel [OF assms that] obtain t p' where
      "ParseProgram n p = Done \<lparr>Statements = [Some (ExpressionStatement t (Some e))]\<rparr> p'"
      "errors p' = errors p" by blast
    moreover obtain shown where "Expression_String e = Some shown"
      using reading_renders [OF assms] by blast
    ultimately show ?thesis
      by (simp add: expressions_def diagnostics_def rendered_def Errors_def Program_String_def
          write_all_def on_interface_def)
  qed
  have "expressions (parse_source k (source ts)) = Some [Some e]
      \<and> diagnostics (parse_source k (source ts)) = Some []
      \<and> rendered (parse_source k (source ts)) = Expression_String e"
    if k: "2 * length (source ts) + 6 \<le> k"
  proof -
    let ?p = "Parser_New (Lexer_New (source ts))"
    have "2 * tokens_left ?p + 2 \<le> k" using k tokens_left_New [of "source ts"] by simp
    with general [of ?p k] pending_source [OF assms] show ?thesis
      by (simp add: parse_source_def errors_New)
  qed
  moreover have "Expression_String e \<noteq> None" using reading_renders [OF assms] by auto
  ultimately show ?thesis
    using general [of p n] render_sum_product render_left_assoc render_prefix by blast
qed

theorem rendering_reflects_grouping_witness:
  "spec_reading
     [\<lparr>Type = INT', Literal = ''1''\<rparr>, \<lparr>Type = MINUS, Literal = ''-''\<rparr>,
      \<lparr>Type = INT', Literal = ''2''\<rparr>, \<lparr>Type = ASTERISK, Literal = ''*''\<rparr>,
      \<lparr>Type = INT', Literal = ''3''\<rparr>, \<lparr>Type = MINUS, Literal = ''-''\<rparr>,
      \<lparr>Type = INT', Literal = ''4''\<rparr>]
     (InfixExpression \<lparr>Type = MINUS, Literal = ''-''\<rparr>
        (Some (InfixExpression \<lparr>Type = MINUS, Literal = ''-''\<rparr>
           (Some (IntegerLiteral \<lparr>Type = INT', Literal = ''1''\<rparr> 1)) ''-''
           (Some (InfixExpression \<lparr>Type = ASTERISK, Literal = ''*''\<rparr>
              (Some (IntegerLiteral \<lparr>Type = INT', Literal = ''2''\<rparr> 2)) ''*''
              (Some (IntegerLiteral \<lparr>Type = INT', Literal = ''3''\<rparr> 3))))))
        ''-'' (Some (IntegerLiteral \<lparr>Type = INT', Literal = ''4''\<rparr> 4)))
     3
   \<and> pending (Parser_New (Lexer_New ''1 - 2 * 3 - 4;''))
       = [\<lparr>Type = INT', Literal = ''1''\<rparr>, \<lparr>Type = MINUS, Literal = ''-''\<rparr>,
          \<lparr>Type = INT', Literal = ''2''\<rparr>, \<lparr>Type = ASTERISK, Literal = ''*''\<rparr>,
          \<lparr>Type = INT', Literal = ''3''\<rparr>, \<lparr>Type = MINUS, Literal = ''-''\<rparr>,
          \<lparr>Type = INT', Literal = ''4''\<rparr>] @ [semicolon]
   \<and> 2 * tokens_left (Parser_New (Lexer_New ''1 - 2 * 3 - 4;'')) + 2 \<le> 34
   \<and> 2 * length ''1 - 2 * 3 - 4;'' + 6 \<le> (34::nat)
   \<and> rendered (ParseProgram 34 (Parser_New (Lexer_New ''1 - 2 * 3 - 4;'')))
       = Some ''((1 - (2 * 3)) - 4)''
   \<and> rendered (parse_source 34 ''1 - 2 * 3 - 4;'') = Some ''((1 - (2 * 3)) - 4)''
   \<and> diagnostics (parse_source 34 ''1 - 2 * 3 - 4;'') = Some []"
proof -
  let ?minus = "\<lparr>Type = MINUS, Literal = ''-''\<rparr>"
  let ?star = "\<lparr>Type = ASTERISK, Literal = ''*''\<rparr>"
  let ?t1 = "\<lparr>Type = INT', Literal = ''1''\<rparr>"
  let ?t2 = "\<lparr>Type = INT', Literal = ''2''\<rparr>"
  let ?t3 = "\<lparr>Type = INT', Literal = ''3''\<rparr>"
  let ?t4 = "\<lparr>Type = INT', Literal = ''4''\<rparr>"
  let ?product = "InfixExpression ?star (Some (IntegerLiteral ?t2 2)) ''*''
      (Some (IntegerLiteral ?t3 3))"
  let ?inner = "InfixExpression ?minus (Some (IntegerLiteral ?t1 1)) ''-'' (Some ?product)"
  let ?e = "InfixExpression ?minus (Some ?inner) ''-'' (Some (IntegerLiteral ?t4 4))"
  have a1: "atom ?t1 (IntegerLiteral ?t1 1)"
    by (rule atom.literal) (simp_all add: isDigit_nat ParseInt_def)
  have a2: "atom ?t2 (IntegerLiteral ?t2 2)"
    by (rule atom.literal) (simp_all add: isDigit_nat ParseInt_def)
  have a3: "atom ?t3 (IntegerLiteral ?t3 3)"
    by (rule atom.literal) (simp_all add: isDigit_nat ParseInt_def)
  have a4: "atom ?t4 (IntegerLiteral ?t4 4)"
    by (rule atom.literal) (simp_all add: isDigit_nat ParseInt_def)
  note r1 = spec_reading.operand [OF a1] and r2 = spec_reading.operand [OF a2]
    and r3 = spec_reading.operand [OF a3] and r4 = spec_reading.operand [OF a4]
  have star: "?star \<in> set infix_operators" and minus: "?minus \<in> set infix_operators"
    by (simp_all add: infix_operators_def)
  have "spec_reading ([?t2] @ ?star # [?t3])
      (InfixExpression ?star (Some (IntegerLiteral ?t2 2)) (Literal ?star)
         (Some (IntegerLiteral ?t3 3))) (spec_strength (Type ?star))"
    using star r2 r3
    by (rule spec_reading.binary) (simp_all add: spec_strength_def operand_strength_def)
  then have product: "spec_reading [?t2, ?star, ?t3] ?product 4"
    by (simp add: spec_strength_def)
  have "spec_reading ([?t1] @ ?minus # [?t2, ?star, ?t3])
      (InfixExpression ?minus (Some (IntegerLiteral ?t1 1)) (Literal ?minus) (Some ?product))
      (spec_strength (Type ?minus))"
    using minus r1 product
    by (rule spec_reading.binary) (simp_all add: spec_strength_def operand_strength_def)
  then have inner: "spec_reading [?t1, ?minus, ?t2, ?star, ?t3] ?inner 3"
    by (simp add: spec_strength_def)
  have "spec_reading ([?t1, ?minus, ?t2, ?star, ?t3] @ ?minus # [?t4])
      (InfixExpression ?minus (Some ?inner) (Literal ?minus) (Some (IntegerLiteral ?t4 4)))
      (spec_strength (Type ?minus))"
    using minus inner r4
    by (rule spec_reading.binary) (simp_all add: spec_strength_def operand_strength_def)
  then have whole: "spec_reading [?t1, ?minus, ?t2, ?star, ?t3, ?minus, ?t4] ?e 3"
    by (simp add: spec_strength_def)
  have src: "source [?t1, ?minus, ?t2, ?star, ?t3, ?minus, ?t4] = ''1 - 2 * 3 - 4;''"
    by (simp add: source_def)
  have n: "2 * length ''1 - 2 * 3 - 4;'' + 6 \<le> (34::nat)" by simp
  have shown: "Expression_String ?e = Some ''((1 - (2 * 3)) - 4)''"
    by (simp add: on_interface_def)
  let ?p = "Parser_New (Lexer_New ''1 - 2 * 3 - 4;'')"
  have p: "pending ?p = [?t1, ?minus, ?t2, ?star, ?t3, ?minus, ?t4] @ [semicolon]"
    using pending_source [OF whole] unfolding src .
  have f: "2 * tokens_left ?p + 2 \<le> 34"
    using tokens_left_New [of "''1 - 2 * 3 - 4;''"] by simp
  from rendering_reflects_grouping [OF whole, of ?p 34 34] whole p f n show ?thesis
    unfolding src shown by simp
qed

end
